theory Spec2Isabelle
  imports Main "HOL-Library.AList"
begin

section \<open>Python values, errors and dictionaries\<close>

text \<open>
  The table compiler \<^verbatim>\<open>scripts/make-tables\<close> is a Python script. Its exceptions are
  values of \<open>py_error\<close>; a function that can raise returns \<open>py_error + 'a\<close>.
  A codepoint is a natural number (the script obtains codepoints by reading hexadecimal
  fields). A dictionary is an association list with distinct keys in insertion order:
  \<open>AList.update\<close> overwrites the value of a key that is present and appends a new key
  at the end, as assignment to a Python dictionary does.
\<close>

datatype py_error = ValueError | IndexError | KeyError

text \<open>The values stored in the property tables are Python strings or integers.\<close>

datatype py_value = PyStr string | PyInt int

section \<open>Sparse table encoder (\<^verbatim>\<open>write_sparse_table\<close>)\<close>

text \<open>\<^verbatim>\<open>table.get(k, defval)\<close>\<close>

definition table_get :: "(nat \<times> 'v) list \<Rightarrow> nat \<Rightarrow> 'v \<Rightarrow> 'v" where
  "table_get table k defval = (case map_of table k of None \<Rightarrow> defval | Some v \<Rightarrow> v)"

text \<open>
  \<^verbatim>\<open>if defval == None: defval = 'static_cast<{0}>(0)'.format(vtype)\<close>
\<close>

definition default_value :: "string \<Rightarrow> py_value option \<Rightarrow> py_value" where
  "default_value vtype defval =
     (case defval of None \<Rightarrow> PyStr (''static_cast<'' @ vtype @ ''>(0)'') | Some d \<Rightarrow> d)"

text \<open>
  Body of the first loop: \<open>number\<close> counts the codepoints whose value differs from
  \<open>lastv\<close>, which starts as \<^verbatim>\<open>None\<close>.
\<close>

definition count_step ::
  "(nat \<times> py_value) list \<Rightarrow> py_value \<Rightarrow> nat \<Rightarrow> nat \<times> py_value option \<Rightarrow> nat \<times> py_value option"
where
  "count_step table defval k st =
     (case st of (number, lastv) \<Rightarrow>
        let v = table_get table k defval
        in (if Some v \<noteq> lastv then number + 1 else number, Some v))"

text \<open>Body of the second loop: an entry \<open>(k, v)\<close> is written where the value changes.\<close>

definition emit_step ::
  "(nat \<times> py_value) list \<Rightarrow> py_value \<Rightarrow> nat \<Rightarrow>
   (nat \<times> py_value) list \<times> py_value option \<Rightarrow> (nat \<times> py_value) list \<times> py_value option"
where
  "emit_step table defval k st =
     (case st of (out, lastv) \<Rightarrow>
        let v = table_get table k defval
        in (if Some v \<noteq> lastv then out @ [(k, v)] else out, Some v))"

text \<open>
  The result is the array size written in the header (\<open>number\<close>) and the entries written.
  \<^verbatim>\<open>max(table)\<close> raises \<^verbatim>\<open>ValueError\<close> on an empty dictionary.
\<close>

definition write_sparse_table ::
  "string \<Rightarrow> (nat \<times> py_value) list \<Rightarrow> py_value option \<Rightarrow>
   py_error + (nat \<times> (nat \<times> py_value) list)"
where
  "write_sparse_table vtype table defval0 =
     (let defval = default_value vtype defval0
      in if table = [] then Inl ValueError
         else
           let ks = [0 ..< Max (set (map fst table)) + 2];
               number = fst (fold (count_step table defval) ks (0, None));
               entries = fst (fold (emit_step table defval) ks ([], None))
           in Inr (number, entries))"

section \<open>Runs of constant value\<close>

text \<open>
  A codepoint starts a run of \<open>g\<close> when it is the first codepoint or when the value
  changes there (glossary: a breakpoint is a codepoint at which the active value changes).
\<close>

definition run_start :: "(nat \<Rightarrow> 'v) \<Rightarrow> nat \<Rightarrow> bool" where
  "run_start g k = (k = 0 \<or> g k \<noteq> g (k - 1))"

text \<open>
  In the spec's words: a maximal run of constant value of \<open>f\<close> over the domain \<open>[0, n]\<close>
  is an interval \<open>[a, b]\<close> of the domain on which \<open>f\<close> is constant and which cannot be
  extended on either side. \<open>maximal_runs\<close> counts them.
\<close>

definition is_run :: "(nat \<Rightarrow> 'v) \<Rightarrow> nat \<Rightarrow> nat \<Rightarrow> nat \<Rightarrow> bool" where
  "is_run f n a b =
     (a \<le> b \<and> b \<le> n \<and> (\<forall>k \<in> {a..b}. f a = f k) \<and>
      (a = 0 \<or> f (a - 1) \<noteq> f a) \<and> (b = n \<or> f (Suc b) \<noteq> f b))"

definition maximal_runs :: "(nat \<Rightarrow> 'v) \<Rightarrow> nat \<Rightarrow> nat" where
  "maximal_runs f n = card {p \<in> {0..n} \<times> {0..n}. is_run f n (fst p) (snd p)}"

section \<open>Sparse table query\<close>

text \<open>
  Modelled from the spec: the runtime lookup over an emitted table is not part of the
  compiler script. The spec (4.3) gives its contract: binary-search the breakpoint
  sequence for the greatest breakpoint not above the query codepoint and return its
  value; if the codepoint is less than the first breakpoint, or the table is empty,
  return the declared default. \<open>table_search\<close> returns the number of entries whose
  breakpoint is at most \<open>c\<close>, looking only at positions \<open>lo \<le> i < hi\<close>.
\<close>

function table_search :: "(nat \<times> 'v) list \<Rightarrow> nat \<Rightarrow> nat \<Rightarrow> nat \<Rightarrow> nat" where
  "table_search tab c lo hi =
     (if lo < hi then
        (let mid = (lo + hi) div 2
         in if fst (tab ! mid) \<le> c then table_search tab c (mid + 1) hi
            else table_search tab c lo mid)
      else lo)"
  by pat_completeness auto
termination
  by (relation "measure (\<lambda>(tab, c, lo, hi). hi - lo)") auto

declare table_search.simps [simp del]

definition sparse_table_query :: "(nat \<times> 'v) list \<Rightarrow> 'v \<Rightarrow> nat \<Rightarrow> 'v" where
  "sparse_table_query tab defval c =
     (let i = table_search tab c 0 (length tab)
      in if i = 0 then defval else snd (tab ! (i - 1)))"

section \<open>Sparse set encoder (\<^verbatim>\<open>write_sparse_set\<close>)\<close>

text \<open>
  \<^verbatim>\<open>write_charmap\<close> with \<^verbatim>\<open>keysize = valsize = 1\<close> on a dictionary from integers to
  integers: one entry per key, in sorted key order. (With scalar fields of size 1
  \<^verbatim>\<open>field_value\<close> does not raise.)
\<close>

definition write_charmap :: "(int \<times> int) list \<Rightarrow> (int \<times> int) list" where
  "write_charmap table =
     map (\<lambda>c. (c, the (map_of table c))) (sort (map fst table))"

text \<open>
  Loop body: \<^verbatim>\<open>if c != last + 1: first = c\<close>, then \<^verbatim>\<open>subranges[first] = last = c\<close>
  (\<open>first_c\<close> and \<open>last_c\<close> are the script's \<^verbatim>\<open>first\<close> and \<^verbatim>\<open>last\<close>, both \<open>-99\<close> at the start).
\<close>

definition sparse_set_step ::
  "nat \<Rightarrow> (int \<times> int) list \<times> int \<times> int \<Rightarrow> (int \<times> int) list \<times> int \<times> int"
where
  "sparse_set_step c st =
     (case st of (subranges, first_c, last_c) \<Rightarrow>
        let first_c' = (if int c \<noteq> last_c + 1 then int c else first_c)
        in (AList.update first_c' (int c) subranges, first_c', int c))"

definition write_sparse_set :: "nat set \<Rightarrow> (int \<times> int) list" where
  "write_sparse_set table =
     (let codes = sorted_list_of_set table
      in case fold sparse_set_step codes ([], - 99, - 99) of
           (subranges, first_c, last_c) \<Rightarrow> write_charmap subranges)"

text \<open>A codepoint is covered when it lies in one of the closed intervals.\<close>

definition covered :: "(int \<times> int) list \<Rightarrow> nat \<Rightarrow> bool" where
  "covered ivs c = (\<exists>p \<in> set ivs. fst p \<le> int c \<and> int c \<le> snd p)"

text \<open>
  Invariant of the loop of \<^verbatim>\<open>write_sparse_set\<close> after the codepoints \<open>P\<close> have been
  processed: every interval recorded so far lies inside \<open>P\<close> with non-members on both
  sides, every processed codepoint lies in a recorded interval, and the open interval is
  \<open>(first_c, last_c)\<close>.
\<close>

definition sparse_set_inv :: "int set \<Rightarrow> (int \<times> int) list \<times> int \<times> int \<Rightarrow> bool" where
  "sparse_set_inv P st =
     (case st of (subranges, first_c, last_c) \<Rightarrow>
        (\<forall>a b. map_of subranges a = Some b \<longrightarrow>
           a \<le> b \<and> (\<forall>x. a \<le> x \<and> x \<le> b \<longrightarrow> x \<in> P) \<and> a - 1 \<notin> P \<and> b + 1 \<notin> P \<and>
           (b = last_c \<longrightarrow> a = first_c)) \<and>
        (\<forall>c \<in> P. \<exists>a b. map_of subranges a = Some b \<and> a \<le> c \<and> c \<le> b) \<and>
        (P \<noteq> {} \<longrightarrow> map_of subranges first_c = Some last_c \<and> (\<forall>x \<in> P. x \<le> last_c)) \<and>
        (P = {} \<longrightarrow> subranges = [] \<and> last_c = - 99) \<and>
        (\<forall>x \<in> P. 0 \<le> x))"

section \<open>Script tag packer (\<^verbatim>\<open>encode_script\<close>)\<close>

text \<open>\<^verbatim>\<open>str.lower\<close> on ASCII text.\<close>

definition py_lower_char :: "char \<Rightarrow> char" where
  "py_lower_char c =
     (let n = (of_char c :: nat) in if 65 \<le> n \<and> n \<le> 90 then char_of (n + 32) else c)"

definition encode_script :: "string \<Rightarrow> nat" where
  "encode_script abbr =
     fold (\<lambda>c tag. push_bit 8 tag + of_char c) (map py_lower_char abbr) 0"

definition lowercase_code :: "string \<Rightarrow> bool" where
  "lowercase_code abbr =
     (1 \<le> length abbr \<and> length abbr \<le> 4 \<and>
      list_all (\<lambda>c. 97 \<le> (of_char c :: nat) \<and> (of_char c :: nat) \<le> 122) abbr)"

section \<open>Text flds\<close>

text \<open>
  Strings are lists of 8-bit characters; the UCD files read by the script are ASCII.
  \<open>py_isspace\<close> is \<^verbatim>\<open>str.isspace\<close> on ASCII, \<open>py_strip\<close> is \<^verbatim>\<open>str.strip()\<close>,
  \<open>split_when\<close> cuts a string at every character satisfying the predicate, so that
  \<open>py_split d\<close> is \<^verbatim>\<open>str.split(d)\<close> for a one-character separator and \<open>py_split_ws\<close>
  is \<^verbatim>\<open>str.split()\<close>.
\<close>

definition py_isspace :: "char \<Rightarrow> bool" where
  "py_isspace c = (let n = (of_char c :: nat) in (9 \<le> n \<and> n \<le> 13) \<or> (28 \<le> n \<and> n \<le> 32))"

definition py_strip :: "string \<Rightarrow> string" where
  "py_strip s = rev (dropWhile py_isspace (rev (dropWhile py_isspace s)))"

fun split_when :: "(char \<Rightarrow> bool) \<Rightarrow> string \<Rightarrow> string list" where
  "split_when P [] = [[]]"
| "split_when P (c # cs) =
     (if P c then [] # split_when P cs
      else (case split_when P cs of [] \<Rightarrow> [[c]] | w # ws \<Rightarrow> (c # w) # ws))"

definition py_split :: "char \<Rightarrow> string \<Rightarrow> string list" where
  "py_split d s = split_when (\<lambda>c. c = d) s"

definition py_split_ws :: "string \<Rightarrow> string list" where
  "py_split_ws s = filter (\<lambda>w. w \<noteq> []) (split_when py_isspace s)"

text \<open>\<^verbatim>\<open>s.partition(c)[2]\<close> for a one-character separator: the text after its first occurrence.\<close>

definition after_sep :: "char \<Rightarrow> string \<Rightarrow> string" where
  "after_sep c s = drop 1 (dropWhile (\<lambda>x. x \<noteq> c) s)"

text \<open>
  \<^verbatim>\<open>field.partition('..')\<close>: the text before the first \<^verbatim>\<open>..\<close>, whether it was found, and
  the text after it.
\<close>

fun partition_dots :: "string \<Rightarrow> string \<times> bool \<times> string" where
  "partition_dots [] = ([], False, [])"
| "partition_dots (c # cs) =
     (if c = CHR ''.'' \<and> take 1 cs = ''.'' then ([], True, drop 1 cs)
      else (case partition_dots cs of (prefix, sep, suffix) \<Rightarrow> (c # prefix, sep, suffix)))"

text \<open>
  \<^verbatim>\<open>int(s, 16)\<close> and \<^verbatim>\<open>int(s)\<close> on the numerals that occur in UCD fields: a non-empty
  string of hexadecimal (decimal) digits; anything else is a \<^verbatim>\<open>ValueError\<close>.
\<close>

definition hex_digit :: "char \<Rightarrow> nat option" where
  "hex_digit c =
     (let n = (of_char c :: nat)
      in if 48 \<le> n \<and> n \<le> 57 then Some (n - 48)
         else if 97 \<le> n \<and> n \<le> 102 then Some (n - 87)
         else if 65 \<le> n \<and> n \<le> 70 then Some (n - 55)
         else None)"

definition dec_digit :: "char \<Rightarrow> nat option" where
  "dec_digit c = (let n = (of_char c :: nat) in if 48 \<le> n \<and> n \<le> 57 then Some (n - 48) else None)"

fun digits_value :: "(char \<Rightarrow> nat option) \<Rightarrow> nat \<Rightarrow> nat \<Rightarrow> string \<Rightarrow> nat option" where
  "digits_value digit base acc [] = Some acc"
| "digits_value digit base acc (c # cs) =
     (case digit c of None \<Rightarrow> None | Some d \<Rightarrow> digits_value digit base (acc * base + d) cs)"

definition int16 :: "string \<Rightarrow> py_error + nat" where
  "int16 s =
     (if s = [] then Inl ValueError
      else case digits_value hex_digit 16 0 s of None \<Rightarrow> Inl ValueError | Some n \<Rightarrow> Inr n)"

definition int10 :: "string \<Rightarrow> py_error + nat" where
  "int10 s =
     (if s = [] then Inl ValueError
      else case digits_value dec_digit 10 0 s of None \<Rightarrow> Inl ValueError | Some n \<Rightarrow> Inr n)"

text \<open>\<^verbatim>\<open>'{0:x}'.format(n)\<close>: lowercase hexadecimal without padding.\<close>

definition hex_char :: "nat \<Rightarrow> char" where
  "hex_char d = ''0123456789abcdef'' ! d"

function hex_str :: "nat \<Rightarrow> string" where
  "hex_str n = (if n < 16 then [hex_char n] else hex_str (n div 16) @ [hex_char (n mod 16)])"
  by pat_completeness auto
termination
  by (relation "measure (\<lambda>n. n)") auto

declare hex_str.simps [simp del]

text \<open>Sequencing of steps that can raise: the first exception ends the computation.\<close>

definition py_bind :: "py_error + 'a \<Rightarrow> ('a \<Rightarrow> py_error + 'b) \<Rightarrow> py_error + 'b" where
  "py_bind m f = (case m of Inl e \<Rightarrow> Inl e | Inr x \<Rightarrow> f x)"

fun map_err :: "('a \<Rightarrow> py_error + 'b) \<Rightarrow> 'a list \<Rightarrow> py_error + 'b list" where
  "map_err f [] = Inr []"
| "map_err f (x # xs) =
     py_bind (f x) (\<lambda>y. py_bind (map_err f xs) (\<lambda>ys. Inr (y # ys)))"

text \<open>\<^verbatim>\<open>fields[i]\<close> (the script's \<^verbatim>\<open>fields\<close> is written \<open>flds\<close>)\<close>

definition field :: "string list \<Rightarrow> nat \<Rightarrow> py_error + string" where
  "field flds i = (if i < length flds then Inr (flds ! i) else Inl IndexError)"

text \<open>\<^verbatim>\<open>hexrange\<close> and \<^verbatim>\<open>split_codes\<close>\<close>

definition hexrange :: "string \<Rightarrow> py_error + nat list" where
  "hexrange fld =
     (case partition_dots fld of (prefix, sep, suffix) \<Rightarrow>
        if sep then
          py_bind (int16 prefix) (\<lambda>lo. py_bind (int16 suffix) (\<lambda>hi. Inr [lo ..< hi + 1]))
        else py_bind (int16 fld) (\<lambda>c. Inr [c]))"

definition split_codes :: "string \<Rightarrow> py_error + nat list" where
  "split_codes fld = map_err int16 (py_split_ws fld)"

section \<open>Reading a UCD file (\<^verbatim>\<open>process_file\<close>)\<close>

text \<open>
  The file is given as its list of lines. Each line loses its comment and surrounding
  white space; a non-empty rest is split at the delimiter; a record with fewer than
  \<open>minfields\<close> fields is skipped, a longer one is truncated, and the callback receives
  the stripped flds. The callback updates the tables or raises.
\<close>

fun process_file ::
  "string list \<Rightarrow> (string list \<Rightarrow> 's \<Rightarrow> py_error + 's) \<Rightarrow> nat \<Rightarrow> char \<Rightarrow> 's \<Rightarrow> py_error + 's"
where
  "process_file [] callback minfields delim s = Inr s"
| "process_file (line # src) callback minfields delim s =
     (let text = py_strip (takeWhile (\<lambda>c. c \<noteq> CHR ''#'') line)
      in if text \<noteq> [] then
           (let flds = py_split delim text
            in if length flds \<ge> minfields then
                 (let flds' = (if length flds > minfields then take minfields flds else flds)
                  in py_bind (callback (map py_strip flds') s)
                       (\<lambda>s'. process_file src callback minfields delim s'))
               else process_file src callback minfields delim s)
         else process_file src callback minfields delim s)"

section \<open>The tables built from the UCD files\<close>

text \<open>The module-level dictionaries and sets of the script that the records below update.\<close>

record tables =
  character_names :: "(nat \<times> string) list"
  range_bounds :: "(nat \<times> nat) list"
  general_category :: "(nat \<times> py_value) list"
  combining_class :: "(nat \<times> nat) list"
  bidi_class :: "(nat \<times> py_value) list"
  bidi_mirrored :: "nat set"
  canonical :: "(nat \<times> nat list) list"
  composition_exclusion :: "nat set"
  short_compatibility :: "(nat \<times> nat list) list"
  long_compatibility :: "(nat \<times> nat list) list"
  simple_upper :: "(nat \<times> nat) list"
  simple_lower :: "(nat \<times> nat) list"
  simple_title :: "(nat \<times> nat) list"
  simple_fold :: "(nat \<times> nat) list"
  full_fold :: "(nat \<times> nat list) list"
  corrected_names :: "(nat \<times> string) list"
  composition :: "(nat list \<times> nat) list"

definition empty_tables :: tables where
  "empty_tables =
     \<lparr>character_names = [], range_bounds = [], general_category = [], combining_class = [],
      bidi_class = [], bidi_mirrored = {}, canonical = [], composition_exclusion = {},
      short_compatibility = [], long_compatibility = [], simple_upper = [],
      simple_lower = [], simple_title = [], simple_fold = [], full_fold = [],
      corrected_names = [], composition = []\<rparr>"

section \<open>\<^verbatim>\<open>unicode_data_record\<close>\<close>

text \<open>
  The body of \<^verbatim>\<open>unicode_data_record\<close> in source order, one definition per paragraph of
  the function; a paragraph first reads and converts its fields, then stores (the
  \<open>store_\<close> definitions). An exception ends the whole run, so what was stored before it
  is never seen. Names and range bounds (field 1):
\<close>

definition ends_with :: "string \<Rightarrow> string \<Rightarrow> bool" where
  "ends_with s suffix = (length suffix \<le> length s \<and> drop (length s - length suffix) s = suffix)"

definition record_name :: "nat \<Rightarrow> string \<Rightarrow> tables \<Rightarrow> py_error + tables" where
  "record_name code name s =
     (let s1 = (if take 1 name \<noteq> ''<''
                then s\<lparr>character_names := AList.update code name (character_names s)\<rparr> else s)
      in if ends_with name '' First>'' then
           Inr (s1\<lparr>range_bounds := range_bounds s1 @ [(code, code)]\<rparr>)
         else if ends_with name '' Last>'' then
           (if range_bounds s1 = [] then Inl IndexError
            else Inr (s1\<lparr>range_bounds :=
                        butlast (range_bounds s1) @ [(fst (last (range_bounds s1)), code)]\<rparr>))
         else Inr s1)"

text \<open>General category, combining class, bidi class and mirroring (fields 2, 3, 4, 9):\<close>

definition store_properties ::
  "nat \<Rightarrow> string \<Rightarrow> nat \<Rightarrow> string \<Rightarrow> string \<Rightarrow> tables \<Rightarrow> tables"
where
  "store_properties code gc cc bc bm s =
     (let n = 256 * (of_char (gc ! 0) :: nat) + of_char (gc ! 1);
          h = hex_str n;
          s1 = s\<lparr>general_category :=
                  AList.update code (PyStr (''0x'' @ replicate (4 - length h) CHR '' '' @ h))
                    (general_category s)\<rparr>;
          s2 = s1\<lparr>combining_class := AList.update code cc (combining_class s1)\<rparr>;
          s3 = s2\<lparr>bidi_class :=
                  AList.update code (PyStr (''Bidi_Class::'' @ bc)) (bidi_class s2)\<rparr>
      in if bm = ''Y'' then s3\<lparr>bidi_mirrored := insert code (bidi_mirrored s3)\<rparr> else s3)"

definition record_properties :: "nat \<Rightarrow> string list \<Rightarrow> tables \<Rightarrow> py_error + tables" where
  "record_properties code flds s =
     py_bind (field flds 2) (\<lambda>gc.
     if length gc < 2 then Inl IndexError
     else
       py_bind (field flds 3) (\<lambda>ccf.
       py_bind (int10 ccf) (\<lambda>cc.
       py_bind (field flds 4) (\<lambda>bc.
       py_bind (field flds 9) (\<lambda>bm.
         Inr (store_properties code gc cc bc bm s))))))"

text \<open>Decomposition (field 5):\<close>

definition store_decomposition :: "nat \<Rightarrow> bool \<Rightarrow> nat list \<Rightarrow> tables \<Rightarrow> tables" where
  "store_decomposition code canon dchars s =
     (if canon then
        (let s1 = s\<lparr>canonical := AList.update code dchars (canonical s)\<rparr>
         in if length dchars = 1
            then s1\<lparr>composition_exclusion := insert code (composition_exclusion s1)\<rparr>
            else s1)
      else if length dchars \<le> 3 then
        s\<lparr>short_compatibility := AList.update code dchars (short_compatibility s)\<rparr>
      else
        s\<lparr>long_compatibility := AList.update code dchars (long_compatibility s)\<rparr>)"

definition record_decomposition :: "nat \<Rightarrow> string \<Rightarrow> tables \<Rightarrow> py_error + tables" where
  "record_decomposition code decomp s =
     (if decomp \<noteq> [] then
        (let canon = (take 1 decomp \<noteq> ''<'');
             decomp' = (if \<not> canon then py_strip (after_sep CHR ''>'' decomp) else decomp)
         in py_bind (split_codes decomp') (\<lambda>dchars.
              Inr (store_decomposition code canon dchars s)))
      else Inr s)"

text \<open>Simple case mappings (fields 12, 13, 14):\<close>

definition store_case :: "nat \<Rightarrow> nat \<Rightarrow> nat \<Rightarrow> nat \<Rightarrow> tables \<Rightarrow> tables" where
  "store_case code uc lc tc s =
     (let s1 = (if uc \<noteq> code
                then s\<lparr>simple_upper := AList.update code uc (simple_upper s)\<rparr> else s);
          s2 = (if lc \<noteq> code
                then s1\<lparr>simple_lower := AList.update code lc (simple_lower s1)\<rparr> else s1)
      in if tc \<noteq> uc
         then s2\<lparr>simple_title := AList.update code tc (simple_title s2)\<rparr>
         else s2)"

definition record_case :: "nat \<Rightarrow> string list \<Rightarrow> tables \<Rightarrow> py_error + tables" where
  "record_case code flds s =
     py_bind (field flds 12) (\<lambda>ucf.
     py_bind (field flds 13) (\<lambda>lcf.
     py_bind (field flds 14) (\<lambda>tcf.
     py_bind (if ucf \<noteq> [] then int16 ucf else Inr code) (\<lambda>uc.
     py_bind (if lcf \<noteq> [] then int16 lcf else Inr code) (\<lambda>lc.
     py_bind (if tcf \<noteq> [] then int16 tcf else Inr uc) (\<lambda>tc.
       Inr (store_case code uc lc tc s)))))))"

definition unicode_data_record :: "string list \<Rightarrow> tables \<Rightarrow> py_error + tables" where
  "unicode_data_record flds s =
     py_bind (field flds 0) (\<lambda>f0.
     py_bind (int16 f0) (\<lambda>code.
     py_bind (field flds 1) (\<lambda>name.
     py_bind (record_name code name s) (\<lambda>s1.
     py_bind (record_properties code flds s1) (\<lambda>s2.
     py_bind (field flds 5) (\<lambda>decomp.
     py_bind (record_decomposition code decomp s2) (\<lambda>s3.
       record_case code flds s3)))))))"

section \<open>Character names\<close>

text \<open>
  \<^verbatim>\<open>names_list\<close>: the records \<^verbatim>\<open>'{0:x};{1};'.format(code, character_names[code])\<close> for
  the codes in sorted order, concatenated.
\<close>

definition names_list :: "(nat \<times> string) list \<Rightarrow> string" where
  "names_list names =
     concat (map (\<lambda>code. hex_str code @ '';'' @ the (map_of names code) @ '';'')
               (sort (map fst names)))"

definition name_aliases_record :: "string list \<Rightarrow> tables \<Rightarrow> py_error + tables" where
  "name_aliases_record flds s =
     py_bind (field flds 2) (\<lambda>kind.
     if kind = ''correction'' then
       py_bind (field flds 0) (\<lambda>f0.
       py_bind (int16 f0) (\<lambda>code.
       py_bind (field flds 1) (\<lambda>name.
         Inr (s\<lparr>corrected_names := AList.update code name (corrected_names s)\<rparr>))))
     else Inr s)"

text \<open>
  Modelled from the spec: reading the name blob back is the consumer's part and is not
  in the script. The spec (4.4) has the consumer decompress the blob, scan the
  \<^verbatim>\<open><hex>;<name>;\<close> grammar to recover the name of a codepoint, and only after a
  successful lookup substitute the corrected name if the overlay has one.
  \<open>parse_names\<close> reads the flds between semicolons pairwise.
\<close>

fun parse_name_fields :: "string list \<Rightarrow> (nat \<times> string) list option" where
  "parse_name_fields [] = Some []"
| "parse_name_fields [rest] = (if rest = [] then Some [] else None)"
| "parse_name_fields (h # name # others) =
     (case int16 h of
        Inl e \<Rightarrow> None
      | Inr code \<Rightarrow> map_option (\<lambda>ps. (code, name) # ps) (parse_name_fields others))"

definition parse_names :: "string \<Rightarrow> (nat \<times> string) list option" where
  "parse_names blob = parse_name_fields (py_split CHR '';'' blob)"

definition lookup_name :: "string \<Rightarrow> (nat \<times> string) list \<Rightarrow> nat \<Rightarrow> string option" where
  "lookup_name blob overlay code =
     (case parse_names blob of
        None \<Rightarrow> None
      | Some ps \<Rightarrow>
          (case map_of ps code of
             None \<Rightarrow> None
           | Some name \<Rightarrow>
               (case map_of overlay code of None \<Rightarrow> Some name | Some fixed \<Rightarrow> Some fixed)))"

section \<open>Case folding\<close>

definition case_folding_record :: "string list \<Rightarrow> tables \<Rightarrow> py_error + tables" where
  "case_folding_record flds s =
     py_bind (field flds 0) (\<lambda>f0.
     py_bind (int16 f0) (\<lambda>code.
     py_bind (field flds 1) (\<lambda>status.
     if status = ''C'' \<or> status = ''S'' then
       py_bind (field flds 2) (\<lambda>f2.
       py_bind (int16 f2) (\<lambda>mapping.
         Inr (s\<lparr>simple_fold := AList.update code mapping (simple_fold s)\<rparr>)))
     else if status = ''F'' then
       py_bind (field flds 2) (\<lambda>f2.
       py_bind (split_codes f2) (\<lambda>values.
         Inr (if length values > 1
              then s\<lparr>full_fold := AList.update code values (full_fold s)\<rparr> else s)))
     else Inr s)))"

text \<open>
  The two loops after the files are read. First loop:
  \<^verbatim>\<open>for code in simple_lower: if code not in simple_fold: simple_fold[code] = code\<close>.
  Second loop: \<^verbatim>\<open>temp_fold\<close> keeps the entries of \<^verbatim>\<open>simple_fold\<close> whose code has no
  simple lowercase mapping or a different one.
\<close>

definition default_fold :: "(nat \<times> nat) list \<Rightarrow> (nat \<times> nat) list \<Rightarrow> (nat \<times> nat) list" where
  "default_fold lower fold0 =
     fold (\<lambda>code sf. if map_of sf code = None then AList.update code code sf else sf)
       (map fst lower) fold0"

definition divergent_fold :: "(nat \<times> nat) list \<Rightarrow> (nat \<times> nat) list \<Rightarrow> (nat \<times> nat) list" where
  "divergent_fold lower sf =
     fold (\<lambda>code temp_fold.
             if map_of lower code = None \<or> map_of lower code \<noteq> map_of sf code
             then AList.update code (the (map_of sf code)) temp_fold else temp_fold)
       (map fst sf) []"

definition fold_normalization :: "tables \<Rightarrow> tables" where
  "fold_normalization s =
     s\<lparr>simple_fold := divergent_fold (simple_lower s) (default_fold (simple_lower s) (simple_fold s))\<rparr>"

section \<open>Composition exclusions and the composition table\<close>

text \<open>\<^verbatim>\<open>BooleanUcdRecord(composition_exclusion)\<close>: \<^verbatim>\<open>table.update(hexrange(fields[0]))\<close>\<close>

definition exclusion_record :: "string list \<Rightarrow> tables \<Rightarrow> py_error + tables" where
  "exclusion_record flds s =
     py_bind (field flds 0) (\<lambda>f0.
     py_bind (hexrange f0) (\<lambda>codes.
       Inr (s\<lparr>composition_exclusion := composition_exclusion s \<union> set codes\<rparr>)))"

text \<open>
  \<^verbatim>\<open>for c in canonical: if combining_class[c] != 0 or
  combining_class.get(canonical[c][0], 0) != 0: composition_exclusion.add(c)\<close>
\<close>

definition exclusion_step :: "(nat \<times> nat) list \<Rightarrow> nat \<times> nat list \<Rightarrow> nat set \<Rightarrow> py_error + nat set" where
  "exclusion_step cc entry excl =
     (case entry of (c, dchars) \<Rightarrow>
        (case map_of cc c of
           None \<Rightarrow> Inl KeyError
         | Some k \<Rightarrow>
             if k \<noteq> 0 then Inr (insert c excl)
             else (case dchars of
                     [] \<Rightarrow> Inl IndexError
                   | d # ds \<Rightarrow>
                       if (case map_of cc d of None \<Rightarrow> 0 | Some k' \<Rightarrow> k') \<noteq> 0
                       then Inr (insert c excl) else Inr excl)))"

fun exclusion_loop :: "(nat \<times> nat) list \<Rightarrow> (nat \<times> nat list) list \<Rightarrow> nat set \<Rightarrow> py_error + nat set" where
  "exclusion_loop cc [] excl = Inr excl"
| "exclusion_loop cc (entry # rest) excl =
     py_bind (exclusion_step cc entry excl) (\<lambda>excl'. exclusion_loop cc rest excl')"

definition infer_exclusions :: "tables \<Rightarrow> py_error + tables" where
  "infer_exclusions s =
     py_bind (exclusion_loop (combining_class s) (canonical s) (composition_exclusion s))
       (\<lambda>excl. Inr (s\<lparr>composition_exclusion := excl\<rparr>))"

text \<open>
  \<^verbatim>\<open>for c in canonical: if c not in composition_exclusion: composition[canonical[c]] = c\<close>
\<close>

definition build_composition :: "(nat \<times> nat list) list \<Rightarrow> nat set \<Rightarrow> (nat list \<times> nat) list" where
  "build_composition canon excl =
     fold (\<lambda>entry comp. case entry of (c, dchars) \<Rightarrow>
             if c \<notin> excl then AList.update dchars c comp else comp)
       canon []"

definition compose_tables :: "tables \<Rightarrow> tables" where
  "compose_tables s = s\<lparr>composition := build_composition (canonical s) (composition_exclusion s)\<rparr>"

section \<open>Records of a file and spec-level readings\<close>

text \<open>
  The records that \<^verbatim>\<open>process_file\<close> hands to its callback, in file order, and the
  callback run over a list of records.
\<close>

definition file_records :: "string list \<Rightarrow> nat \<Rightarrow> char \<Rightarrow> string list list" where
  "file_records src minfields delim =
     map (\<lambda>fs. map py_strip (take minfields fs))
       (filter (\<lambda>fs. minfields \<le> length fs)
          (map (py_split delim)
             (filter (\<lambda>text. text \<noteq> [])
                (map (\<lambda>line. py_strip (takeWhile (\<lambda>c. c \<noteq> CHR ''#'') line)) src))))"

fun run_records ::
  "(string list \<Rightarrow> 's \<Rightarrow> py_error + 's) \<Rightarrow> string list list \<Rightarrow> 's \<Rightarrow> py_error + 's"
where
  "run_records callback [] s = Inr s"
| "run_records callback (r # rs) s = py_bind (callback r s) (run_records callback rs)"

text \<open>
  In the words of the claim about simple case mappings: the codepoint of a UnicodeData
  record with its simple uppercase and lowercase mappings (the codepoint itself when the
  field is missing) and its simple titlecase mapping (the uppercase mapping when the
  field is missing).
\<close>

definition case_fields :: "string list \<Rightarrow> (nat \<times> nat \<times> nat \<times> nat) option" where
  "case_fields flds =
     (case int16 (flds ! 0) of
        Inl e \<Rightarrow> None
      | Inr code \<Rightarrow>
          (case (if flds ! 12 = [] then Inr code else int16 (flds ! 12)) of
             Inl e \<Rightarrow> None
           | Inr uc \<Rightarrow>
               (case (if flds ! 13 = [] then Inr code else int16 (flds ! 13)) of
                  Inl e \<Rightarrow> None
                | Inr lc \<Rightarrow>
                    (case (if flds ! 14 = [] then Inr uc else int16 (flds ! 14)) of
                       Inl e \<Rightarrow> None
                     | Inr tc \<Rightarrow> Some (code, uc, lc, tc)))))"

section \<open>Properties of the sparse table encoder\<close>

lemma emit_fold:
  "fold (emit_step table d) [0..<n] ([], None) =
     (map (\<lambda>k. (k, table_get table k d)) (filter (run_start (\<lambda>k. table_get table k d)) [0..<n]),
      if n = 0 then None else Some (table_get table (n - 1) d))"
  by (induction n) (auto simp: emit_step_def run_start_def Let_def)

lemma count_fold:
  "fold (count_step table d) [0..<n] (0, None) =
     (length (filter (run_start (\<lambda>k. table_get table k d)) [0..<n]),
      if n = 0 then None else Some (table_get table (n - 1) d))"
  by (induction n) (auto simp: count_step_def run_start_def Let_def)

lemma table_get_beyond:
  "table \<noteq> [] \<Longrightarrow> Max (set (map fst table)) < k \<Longrightarrow> table_get table k d = d"
proof -
  assume ne: "table \<noteq> []" and lt: "Max (set (map fst table)) < k"
  have "k \<notin> set (map fst table)"
  proof
    assume "k \<in> set (map fst table)"
    then have "k \<le> Max (set (map fst table))" by (intro Max_ge) auto
    with lt show False by simp
  qed
  then have "map_of table k = None" by (simp add: map_of_eq_None_iff)
  then show ?thesis by (simp add: table_get_def)
qed

lemma table_search_spec:
  "sorted_wrt (<) (map fst tab) \<Longrightarrow> lo \<le> hi \<Longrightarrow> hi \<le> length tab \<Longrightarrow>
   (\<forall>i<lo. fst (tab ! i) \<le> c) \<Longrightarrow> (\<forall>i. hi \<le> i \<and> i < length tab \<longrightarrow> c < fst (tab ! i)) \<Longrightarrow>
   (let r = table_search tab c lo hi in
      r \<le> length tab \<and> (\<forall>i<r. fst (tab ! i) \<le> c) \<and> (\<forall>i. r \<le> i \<and> i < length tab \<longrightarrow> c < fst (tab ! i)))"
proof (induction tab c lo hi rule: table_search.induct)
  case (1 tab c lo hi)
  show ?case
  proof (cases "lo < hi")
    case False
    then have "table_search tab c lo hi = lo" by (subst table_search.simps) simp
    with False "1.prems" show ?thesis by (simp add: Let_def)
  next
    case True
    define mid where "mid = (lo + hi) div 2"
    have mid: "lo \<le> mid" "mid < hi" using True by (simp_all add: mid_def)
    have mono: "\<And>i j. i \<le> j \<Longrightarrow> j < length tab \<Longrightarrow> fst (tab ! i) \<le> fst (tab ! j)"
    proof -
      fix i j assume "i \<le> j" "j < length tab"
      then show "fst (tab ! i) \<le> fst (tab ! j)"
        using "1.prems"(1) sorted_wrt_nth_less[of "(<)" "map fst tab" i j]
        by (cases "i = j") auto
    qed
    show ?thesis
    proof (cases "fst (tab ! mid) \<le> c")
      case le: True
      have "\<forall>i<mid + 1. fst (tab ! i) \<le> c"
      proof (intro allI impI)
        fix i assume "i < mid + 1"
        then have "i \<le> mid" by simp
        then have "fst (tab ! i) \<le> fst (tab ! mid)" using mono mid "1.prems"(3) by simp
        with le show "fst (tab ! i) \<le> c" by simp
      qed
      with "1.IH"(1)[OF True mid_def le] "1.prems" mid
      have "let r = table_search tab c (mid + 1) hi in
        r \<le> length tab \<and> (\<forall>i<r. fst (tab ! i) \<le> c) \<and> (\<forall>i. r \<le> i \<and> i < length tab \<longrightarrow> c < fst (tab ! i))"
        by simp
      moreover have "table_search tab c lo hi = table_search tab c (mid + 1) hi"
        using True le by (subst table_search.simps) (simp add: mid_def Let_def)
      ultimately show ?thesis by simp
    next
      case gt: False
      have "\<forall>i. mid \<le> i \<and> i < length tab \<longrightarrow> c < fst (tab ! i)"
      proof (intro allI impI)
        fix i assume "mid \<le> i \<and> i < length tab"
        then have "fst (tab ! mid) \<le> fst (tab ! i)" using mono by simp
        with gt show "c < fst (tab ! i)" by simp
      qed
      with "1.IH"(2)[OF True mid_def gt] "1.prems" mid
      have "let r = table_search tab c lo mid in
        r \<le> length tab \<and> (\<forall>i<r. fst (tab ! i) \<le> c) \<and> (\<forall>i. r \<le> i \<and> i < length tab \<longrightarrow> c < fst (tab ! i))"
        by simp
      moreover have "table_search tab c lo hi = table_search tab c lo mid"
        using True gt by (subst table_search.simps) (simp add: mid_def Let_def)
      ultimately show ?thesis by simp
    qed
  qed
qed

lemma const_between:
  fixes b c :: nat
  shows "b \<le> c \<Longrightarrow> (\<forall>k. b < k \<and> k \<le> c \<longrightarrow> g k = g (k - 1)) \<Longrightarrow> g c = g b"
proof (induction c)
  case 0
  then show ?case by simp
next
  case (Suc c)
  show ?case
  proof (cases "b = Suc c")
    case True then show ?thesis by simp
  next
    case False
    with Suc.prems have "b \<le> c" by simp
    moreover have "g (Suc c) = g c" using Suc.prems False by auto
    ultimately show ?thesis using Suc by simp
  qed
qed

lemma breakpoints_sorted: "sorted_wrt (<) (filter P [0..<n])"
  by (simp add: sorted_wrt_filter)

lemma query_breakpoints:
  fixes g :: "nat \<Rightarrow> 'v"
  assumes n: "0 < n" and tail: "\<forall>k\<ge>n. g k = g (k - 1)"
  defines "tab \<equiv> map (\<lambda>k. (k, g k)) (filter (run_start g) [0..<n])"
  shows "sparse_table_query tab d c = g c"
proof -
  let ?bps = "filter (run_start g) [0..<n]"
  have keys: "map fst tab = ?bps" by (simp add: tab_def comp_def)
  have srt: "sorted_wrt (<) (map fst tab)" unfolding keys by (rule breakpoints_sorted)
  have len: "length tab = length ?bps" by (simp add: tab_def)
  have hd0: "?bps = 0 # filter (run_start g) [1..<n]"
    using n by (simp add: upt_conv_Cons run_start_def)
  have ne: "0 < length tab" and first: "fst (tab ! 0) = 0"
    using hd0 by (simp_all add: tab_def)
  define r where "r = table_search tab c 0 (length tab)"
  have spec: "r \<le> length tab \<and> (\<forall>i<r. fst (tab ! i) \<le> c) \<and>
              (\<forall>i. r \<le> i \<and> i < length tab \<longrightarrow> c < fst (tab ! i))"
    using table_search_spec[OF srt, of 0 "length tab" c] by (simp add: r_def Let_def)
  have rpos: "0 < r"
  proof (rule ccontr)
    assume "\<not> 0 < r"
    then have "c < fst (tab ! 0)" using spec ne by simp
    with first show False by simp
  qed
  define b where "b = fst (tab ! (r - 1))"
  have rlt: "r - 1 < length tab" using rpos spec by linarith
  have nth: "\<And>i. i < length tab \<Longrightarrow> tab ! i = (?bps ! i, g (?bps ! i))"
    by (simp add: tab_def)
  have bc: "b \<le> c" using spec rpos by (simp add: b_def)
  have val: "snd (tab ! (r - 1)) = g b" using nth[OF rlt] by (simp add: b_def)
  have flat: "\<forall>k. b < k \<and> k \<le> c \<longrightarrow> g k = g (k - 1)"
  proof (intro allI impI)
    fix k assume k: "b < k \<and> k \<le> c"
    show "g k = g (k - 1)"
    proof (cases "k \<in> set ?bps")
      case False
      then have "n \<le> k \<or> \<not> run_start g k" by auto
      then show ?thesis using tail by (auto simp: run_start_def)
    next
      case True
      then obtain j where j: "j < length ?bps" "?bps ! j = k"
        unfolding in_set_conv_nth by blast
      have "\<not> j \<le> r - 1"
      proof
        assume jr: "j \<le> r - 1"
        have "?bps ! j \<le> ?bps ! (r - 1)"
        proof (cases "j = r - 1")
          case True then show ?thesis by simp
        next
          case False
          with jr have "j < r - 1" by simp
          then show ?thesis
            using sorted_wrt_nth_less[OF breakpoints_sorted, of j "r - 1" "run_start g" n] rlt len
            by simp
        qed
        then have "k \<le> b" using j nth[OF rlt] by (simp add: b_def)
        with k show False by simp
      qed
      then have "r \<le> j" by simp
      then have "c < fst (tab ! j)" using spec j len by simp
      then have "c < k" using nth[of j] j len by simp
      with k show ?thesis by simp
    qed
  qed
  have "g c = g b" using const_between[OF bc flat] .
  then show ?thesis using rpos val by (simp add: sparse_table_query_def Let_def flip: r_def)
qed

lemma run_end_exists:
  fixes f :: "nat \<Rightarrow> 'v"
  assumes "a \<le> n"
  shows "\<exists>b. a \<le> b \<and> b \<le> n \<and> (\<forall>k \<in> {a..b}. f a = f k) \<and> (b = n \<or> f (Suc b) \<noteq> f b)"
proof -
  define S where "S = {b. a \<le> b \<and> b \<le> n \<and> (\<forall>k \<in> {a..b}. f a = f k)}"
  have "S \<subseteq> {..n}" unfolding S_def by blast
  then have fin: "finite S" by (rule finite_subset) simp
  have aS: "a \<in> S" using assms by (simp add: S_def)
  define b where "b = Max S"
  have "S \<noteq> {}" using aS by blast
  then have bS: "b \<in> S" unfolding b_def using fin by (intro Max_in)
  then have b1: "a \<le> b" and b2: "b \<le> n" and b3: "\<forall>k \<in> {a..b}. f a = f k"
    unfolding S_def by blast+
  have "b = n \<or> f (Suc b) \<noteq> f b"
  proof (rule ccontr)
    assume "\<not> (b = n \<or> f (Suc b) \<noteq> f b)"
    then have bn: "b < n" and eq: "f (Suc b) = f b" using b2 by simp_all
    have "b \<in> {a..b}" using b1 by simp
    with b3 have fb: "f a = f b" by blast
    have "\<forall>k \<in> {a..Suc b}. f a = f k"
    proof
      fix k assume "k \<in> {a..Suc b}"
      then have "k \<in> {a..b} \<or> k = Suc b" by auto
      then show "f a = f k" using b3 eq fb by metis
    qed
    moreover have "a \<le> Suc b" "Suc b \<le> n" using b1 bn by simp_all
    ultimately have "Suc b \<in> S" unfolding S_def by blast
    then have "Suc b \<le> b" unfolding b_def using fin by (intro Max_ge)
    then show False by simp
  qed
  with b1 b2 b3 show ?thesis by blast
qed

lemma run_end_less:
  assumes r: "is_run f n a b" and r': "is_run f n a b'" and lt: "b < b'"
  shows False
proof -
  from r have ab: "a \<le> b" and bn: "b = n \<or> f (Suc b) \<noteq> f b"
    and c: "\<forall>k \<in> {a..b}. f a = f k" unfolding is_run_def by blast+
  from r' have b'n: "b' \<le> n" and c': "\<forall>k \<in> {a..b'}. f a = f k"
    unfolding is_run_def by blast+
  from lt b'n bn have ne: "f (Suc b) \<noteq> f b" by simp
  have "Suc b \<in> {a..b'}" using ab lt by simp
  with c' have "f a = f (Suc b)" by blast
  moreover have "b \<in> {a..b}" using ab by simp
  with c have "f a = f b" by blast
  ultimately show False using ne by simp
qed

lemma run_end_unique:
  assumes "is_run f n a b" "is_run f n a b'"
  shows "b = b'"
  using run_end_less[OF assms] run_end_less[OF assms(2) assms(1)] by (meson nat_neq_iff)

lemma maximal_runs_eq:
  "maximal_runs f n = length (filter (run_start f) [0..<Suc n])"
proof -
  let ?R = "{p \<in> {0..n} \<times> {0..n}. is_run f n (fst p) (snd p)}"
  let ?A = "{a. a \<le> n \<and> run_start f a}"
  have inj: "inj_on fst ?R"
  proof (rule inj_onI)
    fix p q assume "p \<in> ?R" "q \<in> ?R" "fst p = fst q"
    then have "is_run f n (fst p) (snd p)" "is_run f n (fst p) (snd q)" by simp_all
    then have "snd p = snd q" by (rule run_end_unique)
    with \<open>fst p = fst q\<close> show "p = q" by (simp add: prod_eq_iff)
  qed
  have img: "fst ` ?R = ?A"
  proof (intro equalityI subsetI)
    fix a assume "a \<in> fst ` ?R"
    then obtain b where "is_run f n a b" by force
    then have "a \<le> b" "b \<le> n" "a = 0 \<or> f (a - 1) \<noteq> f a"
      unfolding is_run_def by blast+
    then have "a \<le> n" "run_start f a" unfolding run_start_def by (simp, metis)
    then show "a \<in> ?A" by simp
  next
    fix a assume "a \<in> ?A"
    then have an: "a \<le> n" and st: "run_start f a" by simp_all
    from run_end_exists[OF an, of f] obtain b where
      b: "a \<le> b" "b \<le> n" "\<forall>k \<in> {a..b}. f a = f k" "b = n \<or> f (Suc b) \<noteq> f b" by blast
    from st have "a = 0 \<or> f (a - 1) \<noteq> f a" unfolding run_start_def by metis
    with b have "is_run f n a b" unfolding is_run_def by blast
    with an b have "(a, b) \<in> ?R" by simp
    then show "a \<in> fst ` ?R" by force
  qed
  have "card ?R = card ?A" using card_image[OF inj] img by simp
  also have "?A = set (filter (run_start f) [0..<Suc n])"
    by (auto simp: less_Suc_eq_le simp del: upt_Suc)
  also have "card \<dots> = length (filter (run_start f) [0..<Suc n])"
    by (intro distinct_card) simp
  finally show ?thesis by (simp add: maximal_runs_def)
qed

lemma filter_upt_extend:
  assumes "n \<le> n'" "\<forall>k\<ge>n. \<not> P k"
  shows "filter P [0..<n'] = filter P [0..<n]"
proof -
  have "[0..<n + (n' - n)] = [0..<n] @ [n..<n + (n' - n)]" by (rule upt_add_eq_append) simp
  then have "[0..<n'] = [0..<n] @ [n..<n']" using assms(1) by simp
  moreover have "filter P [n..<n'] = []" using assms(2) by (simp add: filter_empty_conv)
  ultimately show ?thesis by simp
qed

lemma write_sparse_table_eq:
  assumes "table \<noteq> []"
  shows "write_sparse_table vtype table defval =
     Inr (length (filter (run_start (\<lambda>k. table_get table k (default_value vtype defval)))
                    [0..<Max (set (map fst table)) + 2]),
          map (\<lambda>k. (k, table_get table k (default_value vtype defval)))
            (filter (run_start (\<lambda>k. table_get table k (default_value vtype defval)))
               [0..<Max (set (map fst table)) + 2]))"
  unfolding write_sparse_table_def Let_def emit_fold count_fold
  using assms by (simp only: if_False fst_conv)

lemma flat_beyond:
  assumes "table \<noteq> []" "Max (set (map fst table)) + 2 \<le> k"
  shows "table_get table k d = table_get table (k - 1) d"
proof -
  have "Max (set (map fst table)) < k" "Max (set (map fst table)) < k - 1"
    using assms(2) by linarith+
  then show ?thesis
    using table_get_beyond[OF assms(1), of k d] table_get_beyond[OF assms(1), of "k - 1" d]
    by (simp only:)
qed

text \<open>
  C1. For every non-empty association and every default value the encoder returns a
  breakpoint sequence, and querying that sequence at any codepoint \<open>c\<close> (in particular
  any \<open>c\<close> in \<open>[0, 0x10FFFF]\<close>) gives the value the association assigns to \<open>c\<close>, or the
  default when the association has no entry for \<open>c\<close>.
\<close>

theorem sparse_table_roundtrip:
  assumes "table \<noteq> []"
  shows "\<exists>number entries.
           write_sparse_table vtype table defval = Inr (number, entries) \<and>
           (\<forall>c. sparse_table_query entries (default_value vtype defval) c =
                table_get table c (default_value vtype defval))"
proof -
  let ?d = "default_value vtype defval"
  let ?g = "\<lambda>k. table_get table k ?d"
  let ?n = "Max (set (map fst table)) + 2"
  have "\<forall>k\<ge>?n. ?g k = ?g (k - 1)" using flat_beyond[OF assms] by blast
  then have "\<forall>c. sparse_table_query (map (\<lambda>k. (k, ?g k)) (filter (run_start ?g) [0..<?n])) ?d c = ?g c"
    using query_breakpoints[of ?n ?g] by simp
  then show ?thesis using write_sparse_table_eq[OF assms, of vtype defval] by blast
qed

theorem sparse_table_roundtrip_witness:
  "[(65::nat, PyStr ''Lu'')] \<noteq> [] \<and>
   (\<exists>number entries.
      write_sparse_table ''uint16_t'' [(65, PyStr ''Lu'')] None = Inr (number, entries) \<and>
      (\<forall>c. sparse_table_query entries (default_value ''uint16_t'' None) c =
           table_get [(65, PyStr ''Lu'')] c (default_value ''uint16_t'' None)))"
proof -
  have ne: "[(65::nat, PyStr ''Lu'')] \<noteq> []" by simp
  show ?thesis by (rule conjI [OF ne sparse_table_roundtrip [OF ne]])
qed

lemma no_start_beyond:
  assumes "table \<noteq> []" "Max (set (map fst table)) + 2 \<le> k"
  shows "\<not> run_start (\<lambda>k. table_get table k d) k"
proof -
  have "k \<noteq> 0" using assms(2) by simp
  moreover have "table_get table k d = table_get table (k - 1) d"
    using flat_beyond[OF assms] .
  ultimately show ?thesis unfolding run_start_def by blast
qed

lemma breakpoints_stable:
  assumes ne: "table \<noteq> []" and ne': "table' \<noteq> []"
    and same: "\<forall>c. table_get table' c d = table_get table c d"
  shows "filter (run_start (\<lambda>k. table_get table' k d)) [0..<Max (set (map fst table')) + 2] =
         filter (run_start (\<lambda>k. table_get table k d)) [0..<Max (set (map fst table)) + 2]"
proof -
  let ?g = "\<lambda>k. table_get table k d"
  let ?n = "Max (set (map fst table)) + 2" and ?n' = "Max (set (map fst table')) + 2"
  have geq: "(\<lambda>k. table_get table' k d) = ?g" using same by (intro ext) blast
  have a: "\<forall>k\<ge>?n. \<not> run_start ?g k" using no_start_beyond[OF ne] by blast
  have b: "\<forall>k\<ge>?n'. \<not> run_start ?g k"
    using no_start_beyond[OF ne', of _ d] unfolding geq by blast
  have "filter (run_start ?g) [0..<max ?n ?n'] = filter (run_start ?g) [0..<?n]"
    by (rule filter_upt_extend[OF _ a]) (rule max.cobounded1)
  moreover have "filter (run_start ?g) [0..<max ?n ?n'] = filter (run_start ?g) [0..<?n']"
    by (rule filter_upt_extend[OF _ b]) (rule max.cobounded2)
  ultimately show ?thesis unfolding geq by (simp only:)
qed

lemma ne_set_nonempty: "x \<in> set xs \<Longrightarrow> xs \<noteq> []"
  by auto

lemma sorted_wrt_less_last:
  fixes xs :: "nat list"
  assumes "sorted_wrt (<) xs" "x \<in> set xs"
  shows "x \<le> last xs"
proof -
  from assms(2) obtain i where i: "i < length xs" "xs ! i = x"
    unfolding in_set_conv_nth by blast
  have ne: "xs \<noteq> []" using assms(2) by auto
  show ?thesis
  proof (cases "i = length xs - 1")
    case True
    then show ?thesis using i ne by (simp add: last_conv_nth)
  next
    case False
    then have "i < length xs - 1" using i by simp
    then have "xs ! i < xs ! (length xs - 1)"
      using sorted_wrt_nth_less[OF assms(1), of i "length xs - 1"] i by simp
    then show ?thesis using i ne by (simp add: last_conv_nth)
  qed
qed

text \<open>
  C3. For every non-empty association and default value, the number of entries written
  equals the count in the header and equals the number of maximal runs of constant value
  of the default-completed association over the scanned domain \<open>[0, max key + 1]\<close>.
  Consequently, encoding any non-empty association that reads back from the emitted
  sequence (its default-completed lookups agree with the queries of the sequence) gives
  the same header count, indeed the same entries.
\<close>

theorem sparse_table_run_count:
  assumes "table \<noteq> []"
  shows "\<exists>number entries.
           write_sparse_table vtype table defval = Inr (number, entries) \<and>
           length entries = number \<and>
           number = maximal_runs (\<lambda>k. table_get table k (default_value vtype defval))
                      (Max (set (map fst table)) + 1) \<and>
           (\<forall>table'.
              table' \<noteq> [] \<and>
              (\<forall>c. table_get table' c (default_value vtype defval) =
                   sparse_table_query entries (default_value vtype defval) c) \<longrightarrow>
              write_sparse_table vtype table' defval = Inr (number, entries))"
proof -
  let ?d = "default_value vtype defval"
  let ?g = "\<lambda>k. table_get table k ?d"
  let ?n = "Max (set (map fst table)) + 2"
  let ?bps = "filter (run_start ?g) [0..<?n]"
  let ?entries = "map (\<lambda>k. (k, ?g k)) ?bps"
  have w: "write_sparse_table vtype table defval = Inr (length ?bps, ?entries)"
    by (rule write_sparse_table_eq[OF assms])
  have len: "length ?entries = length ?bps" by (simp only: length_map)
  have "Suc (Max (set (map fst table)) + 1) = ?n" by simp
  then have runs: "length ?bps = maximal_runs ?g (Max (set (map fst table)) + 1)"
    unfolding maximal_runs_eq by (simp only:)
  have q: "\<forall>c. sparse_table_query ?entries ?d c = ?g c"
    using query_breakpoints[of ?n ?g] flat_beyond[OF assms] by simp
  have re: "\<forall>table'. table' \<noteq> [] \<and>
              (\<forall>c. table_get table' c ?d = sparse_table_query ?entries ?d c) \<longrightarrow>
              write_sparse_table vtype table' defval = Inr (length ?bps, ?entries)"
  proof (intro allI impI)
    fix table' :: "(nat \<times> py_value) list"
    assume h: "table' \<noteq> [] \<and> (\<forall>c. table_get table' c ?d = sparse_table_query ?entries ?d c)"
    then have ne': "table' \<noteq> []" and same: "\<forall>c. table_get table' c ?d = ?g c"
      using q by simp_all
    have geq: "(\<lambda>k. table_get table' k ?d) = ?g" using same by (intro ext) blast
    have feq: "(\<lambda>k. (k, table_get table' k ?d)) = (\<lambda>k. (k, ?g k))"
      using same by (intro ext) simp
    have beq: "filter (run_start (\<lambda>k. table_get table' k ?d)) [0..<Max (set (map fst table')) + 2] = ?bps"
      by (rule breakpoints_stable[OF assms ne' same])
    show "write_sparse_table vtype table' defval = Inr (length ?bps, ?entries)"
      unfolding write_sparse_table_eq[OF ne'] beq feq by (rule refl)
  qed
  from w len runs re show ?thesis by blast
qed

theorem sparse_table_run_count_witness:
  "[(1::nat, PyInt 5)] \<noteq> [] \<and>
   (\<exists>number entries.
           write_sparse_table ''int'' [(1::nat, PyInt 5)] (Some (PyInt 0)) = Inr (number, entries) \<and>
           length entries = number \<and>
           number = maximal_runs (\<lambda>k. table_get [(1::nat, PyInt 5)] k (default_value ''int'' (Some (PyInt 0))))
                      (Max (set (map fst [(1::nat, PyInt 5)])) + 1) \<and>
           (\<forall>table'.
              table' \<noteq> [] \<and>
              (\<forall>c. table_get table' c (default_value ''int'' (Some (PyInt 0))) =
                   sparse_table_query entries (default_value ''int'' (Some (PyInt 0))) c) \<longrightarrow>
              write_sparse_table ''int'' table' (Some (PyInt 0)) = Inr (number, entries)))"
proof -
  have ne: "[(1::nat, PyInt 5)] \<noteq> []" by simp
  show ?thesis by (rule conjI [OF ne sparse_table_run_count [OF ne]])
qed

text \<open>
  C4 as stated fails when the maximum key carries the default value (as the combining
  class table does): no entry is written at \<open>max key + 1\<close>.
\<close>

theorem sparse_table_sentinel_counterexample:
  "write_sparse_table ''int'' [(1, PyInt 230), (2, PyInt 0)] (Some (PyInt 0)) =
     Inr (3, [(0, PyInt 0), (1, PyInt 230), (2, PyInt 0)]) \<and>
   Max (set (map fst [(1::nat, PyInt 230), (2, PyInt 0)])) + 1 = 3 \<and>
   last [(0::nat, PyInt 0), (1, PyInt 230), (2, PyInt 0)] \<noteq> (3, PyInt 0)"
  by code_simp

text \<open>
  C4 (amended). For every non-empty association and default value, the emitted sequence
  is non-empty and its last entry carries the default value. When the value stored at the
  maximum key differs from the default, the last entry is the sentinel
  \<open>(max key + 1, default)\<close>; when it equals the default, no entry is written at
  \<open>max key + 1\<close>. Queries at or beyond the last breakpoint return the default.
\<close>

theorem sparse_table_last_entry:
  assumes "table \<noteq> []"
  shows "\<exists>number entries.
           write_sparse_table vtype table defval = Inr (number, entries) \<and>
           entries \<noteq> [] \<and>
           snd (last entries) = default_value vtype defval \<and>
           (table_get table (Max (set (map fst table))) (default_value vtype defval)
              \<noteq> default_value vtype defval \<longrightarrow>
            last entries = (Max (set (map fst table)) + 1, default_value vtype defval)) \<and>
           (table_get table (Max (set (map fst table))) (default_value vtype defval)
              = default_value vtype defval \<longrightarrow>
            Max (set (map fst table)) + 1 \<notin> fst ` set entries) \<and>
           (\<forall>c\<ge>fst (last entries).
              sparse_table_query entries (default_value vtype defval) c =
              default_value vtype defval)"
proof -
  let ?d = "default_value vtype defval"
  let ?g = "\<lambda>k. table_get table k ?d"
  let ?M = "Max (set (map fst table))"
  define n where "n = ?M + 2"
  let ?bps = "filter (run_start ?g) [0..<n]"
  let ?entries = "map (\<lambda>k. (k, ?g k)) ?bps"
  have w: "write_sparse_table vtype table defval = Inr (length ?bps, ?entries)"
    unfolding n_def by (rule write_sparse_table_eq[OF assms])
  have npos: "0 < n" by (simp add: n_def)
  have tail: "\<forall>k\<ge>n. ?g k = ?g (k - 1)" unfolding n_def using flat_beyond[OF assms] by blast
  have q: "\<And>c. sparse_table_query ?entries ?d c = ?g c"
    by (rule query_breakpoints[OF npos tail])
  have mem: "\<And>k. k \<in> set ?bps \<longleftrightarrow> k < n \<and> run_start ?g k"
    unfolding set_filter set_upt by simp
  have "run_start ?g 0" by (simp add: run_start_def)
  then have "0 \<in> set ?bps" unfolding mem using npos by simp
  then have bne: "?bps \<noteq> []" by (rule ne_set_nonempty)
  define b where "b = last ?bps"
  have bin: "b \<in> set ?bps" unfolding b_def using bne by (rule last_in_set)
  then have bn: "b < n" unfolding mem by simp
  have bmax: "\<And>k. k \<in> set ?bps \<Longrightarrow> k \<le> b"
    unfolding b_def by (rule sorted_wrt_less_last[OF breakpoints_sorted])
  have lastE: "last ?entries = (b, ?g b)" unfolding b_def by (rule last_map[OF bne])
  have flat: "\<And>k. b < k \<Longrightarrow> ?g k = ?g (k - 1)"
  proof -
    fix k assume bk: "b < k"
    show "?g k = ?g (k - 1)"
    proof (cases "k < n")
      case False
      then show ?thesis using tail by simp
    next
      case True
      have "k \<notin> set ?bps" using bmax[of k] bk by auto
      with True have "\<not> run_start ?g k" unfolding mem by simp
      then show ?thesis unfolding run_start_def by simp
    qed
  qed
  have const: "\<And>c. b \<le> c \<Longrightarrow> ?g c = ?g b"
    by (rule const_between) (use flat in auto)
  have gM1: "?g (?M + 1) = ?d" by (rule table_get_beyond[OF assms]) simp
  have "b \<le> ?M + 1" using bn by (simp add: n_def)
  then have gb: "?g b = ?d" using const[of "?M + 1"] gM1 by simp
  have c1: "?entries \<noteq> []" using bne by simp
  have c2: "snd (last ?entries) = ?d" unfolding lastE using gb by simp
  have c3: "?g ?M \<noteq> ?d \<longrightarrow> last ?entries = (?M + 1, ?d)"
  proof
    assume "?g ?M \<noteq> ?d"
    then have "run_start ?g (?M + 1)" unfolding run_start_def using gM1 by auto
    then have "?M + 1 \<in> set ?bps" unfolding mem by (simp add: n_def)
    then have "?M + 1 \<le> b" by (rule bmax)
    with bn have "b = ?M + 1" by (simp add: n_def)
    then show "last ?entries = (?M + 1, ?d)" unfolding lastE using gb by simp
  qed
  have c4: "?g ?M = ?d \<longrightarrow> ?M + 1 \<notin> fst ` set ?entries"
  proof
    assume "?g ?M = ?d"
    then have "\<not> run_start ?g (?M + 1)" unfolding run_start_def using gM1 by auto
    then have "?M + 1 \<notin> set ?bps" unfolding mem by simp
    moreover have "fst ` set ?entries = set ?bps" by force
    ultimately show "?M + 1 \<notin> fst ` set ?entries" by metis
  qed
  have c5: "\<forall>c\<ge>fst (last ?entries). sparse_table_query ?entries ?d c = ?d"
    unfolding lastE using q const gb by simp
  from w c1 c2 c3 c4 c5 show ?thesis by blast
qed

theorem sparse_table_last_entry_witness:
  "[(1::nat, PyInt 230)] \<noteq> [] \<and>
   (\<exists>number entries.
           write_sparse_table ''int'' [(1::nat, PyInt 230)] (Some (PyInt 0)) = Inr (number, entries) \<and>
           entries \<noteq> [] \<and>
           snd (last entries) = default_value ''int'' (Some (PyInt 0)) \<and>
           (table_get [(1::nat, PyInt 230)] (Max (set (map fst [(1::nat, PyInt 230)])))
              (default_value ''int'' (Some (PyInt 0)))
              \<noteq> default_value ''int'' (Some (PyInt 0)) \<longrightarrow>
            last entries = (Max (set (map fst [(1::nat, PyInt 230)])) + 1,
                            default_value ''int'' (Some (PyInt 0)))) \<and>
           (table_get [(1::nat, PyInt 230)] (Max (set (map fst [(1::nat, PyInt 230)])))
              (default_value ''int'' (Some (PyInt 0)))
              = default_value ''int'' (Some (PyInt 0)) \<longrightarrow>
            Max (set (map fst [(1::nat, PyInt 230)])) + 1 \<notin> fst ` set entries) \<and>
           (\<forall>c\<ge>fst (last entries).
              sparse_table_query entries (default_value ''int'' (Some (PyInt 0))) c =
              default_value ''int'' (Some (PyInt 0))))"
proof -
  have ne: "[(1::nat, PyInt 230)] \<noteq> []" by simp
  show ?thesis by (rule conjI [OF ne sparse_table_last_entry [OF ne]])
qed

section \<open>Properties of the sparse set encoder\<close>

lemma sparse_set_inv_init: "sparse_set_inv {} ([], - 99, - 99)"
  by (simp add: sparse_set_inv_def)

lemma sparse_set_inv_step:
  assumes inv: "sparse_set_inv P (sub, f, l)" and above: "\<forall>x \<in> P. x < int c"
  shows "sparse_set_inv (insert (int c) P) (sparse_set_step c (sub, f, l))"
proof -
  let ?c = "int c"
  let ?m = "map_of sub"
  from inv have A: "\<And>a b. ?m a = Some b \<Longrightarrow>
      a \<le> b \<and> (\<forall>x. a \<le> x \<and> x \<le> b \<longrightarrow> x \<in> P) \<and> a - 1 \<notin> P \<and> b + 1 \<notin> P \<and> (b = l \<longrightarrow> a = f)"
    and B: "\<And>x. x \<in> P \<Longrightarrow> \<exists>a b. ?m a = Some b \<and> a \<le> x \<and> x \<le> b"
    and C: "P \<noteq> {} \<Longrightarrow> ?m f = Some l \<and> (\<forall>x \<in> P. x \<le> l)"
    and D: "P = {} \<Longrightarrow> sub = [] \<and> l = - 99"
    and E: "\<And>x. x \<in> P \<Longrightarrow> 0 \<le> x"
    unfolding sparse_set_inv_def by (simp_all only: prod.case) blast+
  have inP: "\<And>a b. ?m a = Some b \<Longrightarrow> a \<in> P \<and> b \<in> P"
  proof -
    fix a b assume ab: "?m a = Some b"
    from A[OF ab] have "a \<le> b" and r: "\<forall>x. a \<le> x \<and> x \<le> b \<longrightarrow> x \<in> P" by blast+
    then show "a \<in> P \<and> b \<in> P" by auto
  qed
  have cnotin: "?c \<notin> P" using above by auto
  show ?thesis
  proof (cases "?c = l + 1")
    case True
    have Pne: "P \<noteq> {}"
    proof
      assume "P = {}"
      with D have "l = - 99" by simp
      with True show False by simp
    qed
    from C[OF Pne] have mf: "?m f = Some l" and lmax: "\<forall>x \<in> P. x \<le> l" by blast+
    from A[OF mf] have fl: "f \<le> l" and fr: "\<forall>x. f \<le> x \<and> x \<le> l \<longrightarrow> x \<in> P"
      and f1: "f - 1 \<notin> P" by blast+
    have step: "sparse_set_step c (sub, f, l) = (AList.update f ?c sub, f, ?c)"
      using True by (simp add: sparse_set_step_def Let_def)
    have m': "map_of (AList.update f ?c sub) = ?m(f \<mapsto> ?c)" by (rule update_conv')
    have A': "\<forall>a b. (?m(f \<mapsto> ?c)) a = Some b \<longrightarrow>
        a \<le> b \<and> (\<forall>x. a \<le> x \<and> x \<le> b \<longrightarrow> x \<in> insert ?c P) \<and> a - 1 \<notin> insert ?c P \<and>
        b + 1 \<notin> insert ?c P \<and> (b = ?c \<longrightarrow> a = f)"
    proof (intro allI impI)
      fix a b assume ab: "(?m(f \<mapsto> ?c)) a = Some b"
      show "a \<le> b \<and> (\<forall>x. a \<le> x \<and> x \<le> b \<longrightarrow> x \<in> insert ?c P) \<and> a - 1 \<notin> insert ?c P \<and>
        b + 1 \<notin> insert ?c P \<and> (b = ?c \<longrightarrow> a = f)"
      proof (cases "a = f")
        case True
        with ab have b: "b = ?c" by simp
        have "\<forall>x. f \<le> x \<and> x \<le> ?c \<longrightarrow> x \<in> insert ?c P"
        proof (intro allI impI)
          fix x assume "f \<le> x \<and> x \<le> ?c"
          then have "x = ?c \<or> (f \<le> x \<and> x \<le> l)" using \<open>?c = l + 1\<close> by auto
          then show "x \<in> insert ?c P" using fr by auto
        qed
        moreover have "f - 1 \<notin> insert ?c P" using f1 fl \<open>?c = l + 1\<close> by auto
        moreover have "?c + 1 \<notin> insert ?c P" using lmax \<open>?c = l + 1\<close> by auto
        moreover have "f \<le> ?c" using fl \<open>?c = l + 1\<close> by simp
        ultimately show ?thesis using True b by simp
      next
        case False
        with ab have mab: "?m a = Some b" by simp
        from A[OF mab] have 1: "a \<le> b" and 2: "\<forall>x. a \<le> x \<and> x \<le> b \<longrightarrow> x \<in> P"
          and 3: "a - 1 \<notin> P" and 4: "b + 1 \<notin> P" and 5: "b = l \<longrightarrow> a = f" by blast+
        from inP[OF mab] have aP: "a \<in> P" and bP: "b \<in> P" by blast+
        have bl: "b < l" using 5 False lmax bP by force
        have "a - 1 \<noteq> ?c" using aP above by force
        moreover have "b + 1 \<noteq> ?c" using bl \<open>?c = l + 1\<close> by simp
        moreover have "b \<noteq> ?c" using bP cnotin by auto
        ultimately show ?thesis using 1 2 3 4 by auto
      qed
    qed
    have B': "\<forall>x \<in> insert ?c P. \<exists>a b. (?m(f \<mapsto> ?c)) a = Some b \<and> a \<le> x \<and> x \<le> b"
    proof
      fix x assume "x \<in> insert ?c P"
      then consider "x = ?c" | "x \<in> P" by auto
      then show "\<exists>a b. (?m(f \<mapsto> ?c)) a = Some b \<and> a \<le> x \<and> x \<le> b"
      proof cases
        case 1
        have "(?m(f \<mapsto> ?c)) f = Some ?c \<and> f \<le> x \<and> x \<le> ?c"
          using 1 fl \<open>?c = l + 1\<close> by simp
        then show ?thesis by blast
      next
        case 2
        from B[OF 2] obtain a b where ab: "?m a = Some b" "a \<le> x" "x \<le> b" by blast
        show ?thesis
        proof (cases "a = f")
          case True
          with ab mf have "b = l" by simp
          then have "(?m(f \<mapsto> ?c)) f = Some ?c \<and> f \<le> x \<and> x \<le> ?c"
            using ab True \<open>?c = l + 1\<close> by simp
          then show ?thesis by blast
        next
          case False
          then have "(?m(f \<mapsto> ?c)) a = Some b" using ab by simp
          with ab show ?thesis by blast
        qed
      qed
    qed
    have C': "(?m(f \<mapsto> ?c)) f = Some ?c \<and> (\<forall>x \<in> insert ?c P. x \<le> ?c)"
      using above by auto
    have E': "\<forall>x \<in> insert ?c P. 0 \<le> x" using E by auto
    show ?thesis
      unfolding step sparse_set_inv_def prod.case m'
      using A' B' C' E' by blast
  next
    case False
    have gap: "\<forall>x \<in> P. x + 1 < ?c"
    proof
      fix x assume xP: "x \<in> P"
      then have "P \<noteq> {}" by auto
      from C[OF this] have "x \<le> l" "l \<in> P" using xP inP by blast+
      moreover have "l < ?c" using \<open>l \<in> P\<close> above by blast
      ultimately show "x + 1 < ?c" using False by simp
    qed
    have step: "sparse_set_step c (sub, f, l) = (AList.update ?c ?c sub, ?c, ?c)"
      using False by (simp add: sparse_set_step_def Let_def)
    have m': "map_of (AList.update ?c ?c sub) = ?m(?c \<mapsto> ?c)" by (rule update_conv')
    have A': "\<forall>a b. (?m(?c \<mapsto> ?c)) a = Some b \<longrightarrow>
        a \<le> b \<and> (\<forall>x. a \<le> x \<and> x \<le> b \<longrightarrow> x \<in> insert ?c P) \<and> a - 1 \<notin> insert ?c P \<and>
        b + 1 \<notin> insert ?c P \<and> (b = ?c \<longrightarrow> a = ?c)"
    proof (intro allI impI)
      fix a b assume ab: "(?m(?c \<mapsto> ?c)) a = Some b"
      show "a \<le> b \<and> (\<forall>x. a \<le> x \<and> x \<le> b \<longrightarrow> x \<in> insert ?c P) \<and> a - 1 \<notin> insert ?c P \<and>
        b + 1 \<notin> insert ?c P \<and> (b = ?c \<longrightarrow> a = ?c)"
      proof (cases "a = ?c")
        case True
        with ab have b: "b = ?c" by simp
        have "?c - 1 \<notin> P" using gap by force
        moreover have "?c + 1 \<notin> P" using above by force
        ultimately show ?thesis using True b by auto
      next
        case False
        with ab have mab: "?m a = Some b" by simp
        from A[OF mab] have 1: "a \<le> b" and 2: "\<forall>x. a \<le> x \<and> x \<le> b \<longrightarrow> x \<in> P"
          and 3: "a - 1 \<notin> P" and 4: "b + 1 \<notin> P" by blast+
        from inP[OF mab] have aP: "a \<in> P" and bP: "b \<in> P" by blast+
        have "a - 1 \<noteq> ?c" using aP above by force
        moreover have "b + 1 \<noteq> ?c" using bP gap by force
        moreover have "b \<noteq> ?c" using bP cnotin by auto
        ultimately show ?thesis using 1 2 3 4 by auto
      qed
    qed
    have B': "\<forall>x \<in> insert ?c P. \<exists>a b. (?m(?c \<mapsto> ?c)) a = Some b \<and> a \<le> x \<and> x \<le> b"
    proof
      fix x assume "x \<in> insert ?c P"
      then consider "x = ?c" | "x \<in> P" by auto
      then show "\<exists>a b. (?m(?c \<mapsto> ?c)) a = Some b \<and> a \<le> x \<and> x \<le> b"
      proof cases
        case 1
        have "(?m(?c \<mapsto> ?c)) ?c = Some ?c \<and> ?c \<le> x \<and> x \<le> ?c" using 1 by simp
        then show ?thesis by blast
      next
        case 2
        from B[OF 2] obtain a b where ab: "?m a = Some b" "a \<le> x" "x \<le> b" by blast
        from inP[OF ab(1)] cnotin have "a \<noteq> ?c" by auto
        then have "(?m(?c \<mapsto> ?c)) a = Some b" using ab by simp
        with ab show ?thesis by blast
      qed
    qed
    have C': "(?m(?c \<mapsto> ?c)) ?c = Some ?c \<and> (\<forall>x \<in> insert ?c P. x \<le> ?c)"
      using above by auto
    have E': "\<forall>x \<in> insert ?c P. 0 \<le> x" using E by auto
    show ?thesis
      unfolding step sparse_set_inv_def prod.case m'
      using A' B' C' E' by blast
  qed
qed

lemma sparse_set_inv_fold:
  assumes "sorted_wrt (<) cs" "sparse_set_inv P st" "\<forall>x \<in> P. \<forall>c \<in> set cs. x < int c"
  shows "sparse_set_inv (P \<union> int ` set cs) (fold sparse_set_step cs st)"
  using assms
proof (induction cs arbitrary: P st)
  case Nil
  then show ?case by simp
next
  case (Cons c cs)
  obtain sub f l where st: "st = (sub, f, l)" by (cases st) auto
  have above: "\<forall>x \<in> P. x < int c" using Cons.prems(3) by simp
  have inv': "sparse_set_inv (insert (int c) P) (sparse_set_step c st)"
    unfolding st by (rule sparse_set_inv_step) (use Cons.prems(2) above st in auto)
  have srt: "sorted_wrt (<) cs" and lt: "\<forall>d \<in> set cs. c < d" using Cons.prems(1) by simp_all
  have "\<forall>x \<in> insert (int c) P. \<forall>d \<in> set cs. x < int d"
    using Cons.prems(3) lt by auto
  from Cons.IH[OF srt inv' this]
  have "sparse_set_inv (insert (int c) P \<union> int ` set cs) (fold sparse_set_step cs (sparse_set_step c st))" .
  moreover have "insert (int c) P \<union> int ` set cs = P \<union> int ` set (c # cs)" by auto
  ultimately show ?case by simp
qed

lemma set_write_charmap:
  "set (write_charmap sub) = {(a, b). map_of sub a = Some b}"
proof (intro equalityI subsetI)
  fix p assume "p \<in> set (write_charmap sub)"
  then obtain a where a: "a \<in> set (map fst sub)" and p: "p = (a, the (map_of sub a))"
    unfolding write_charmap_def by auto
  from a have "map_of sub a \<noteq> None" by (simp add: map_of_eq_None_iff)
  then obtain b where "map_of sub a = Some b" by blast
  with p show "p \<in> {(a, b). map_of sub a = Some b}" by simp
next
  fix p assume "p \<in> {(a, b). map_of sub a = Some b}"
  then obtain a b where p: "p = (a, b)" and m: "map_of sub a = Some b" by auto
  then have "a \<in> set (map fst sub)" by (metis map_of_eq_None_iff option.distinct(1) set_map)
  then have "(a, the (map_of sub a)) \<in> set (write_charmap sub)"
    unfolding write_charmap_def by simp
  with p m show "p \<in> set (write_charmap sub)" by simp
qed

text \<open>
  C2. For every finite set of codepoints (empty or not) the sparse-set encoder produces
  closed intervals such that a codepoint is covered by some interval exactly when it is
  a member of the set; both endpoints of every interval are members and the codepoints
  immediately outside each interval are non-members; and an interval starts exactly at
  the members whose predecessor is not a member.
\<close>

theorem sparse_set_cover:
  assumes "finite table"
  shows "(\<forall>c. covered (write_sparse_set table) c \<longleftrightarrow> c \<in> table) \<and>
         (\<forall>p \<in> set (write_sparse_set table).
            fst p \<le> snd p \<and> fst p \<in> int ` table \<and> snd p \<in> int ` table \<and>
            fst p - 1 \<notin> int ` table \<and> snd p + 1 \<notin> int ` table) \<and>
         fst ` set (write_sparse_set table) = {x \<in> int ` table. x - 1 \<notin> int ` table}"
proof -
  let ?P = "int ` table"
  let ?codes = "sorted_list_of_set table"
  obtain sub f l where fold: "fold sparse_set_step ?codes ([], - 99, - 99) = (sub, f, l)"
    by (cases "fold sparse_set_step ?codes ([], - 99, - 99)") auto
  have w: "write_sparse_set table = write_charmap sub"
    by (simp add: write_sparse_set_def fold)
  have srt: "sorted_wrt (<) ?codes" by (simp add: strict_sorted_iff)
  have codes: "set ?codes = table" using assms by simp
  have "sparse_set_inv ({} \<union> int ` set ?codes) (fold sparse_set_step ?codes ([], - 99, - 99))"
    by (rule sparse_set_inv_fold[OF srt sparse_set_inv_init]) simp
  then have inv: "sparse_set_inv ?P (sub, f, l)" unfolding fold codes by simp
  let ?m = "map_of sub"
  from inv have A: "\<And>a b. ?m a = Some b \<Longrightarrow>
      a \<le> b \<and> (\<forall>x. a \<le> x \<and> x \<le> b \<longrightarrow> x \<in> ?P) \<and> a - 1 \<notin> ?P \<and> b + 1 \<notin> ?P"
    and B: "\<And>x. x \<in> ?P \<Longrightarrow> \<exists>a b. ?m a = Some b \<and> a \<le> x \<and> x \<le> b"
    unfolding sparse_set_inv_def by (simp_all only: prod.case) blast+
  have S: "set (write_sparse_set table) = {(a, b). ?m a = Some b}"
    unfolding w by (rule set_write_charmap)
  have c1: "\<forall>c. covered (write_sparse_set table) c \<longleftrightarrow> c \<in> table"
  proof
    fix c
    show "covered (write_sparse_set table) c \<longleftrightarrow> c \<in> table"
    proof
      assume "covered (write_sparse_set table) c"
      then obtain a b where "?m a = Some b" "a \<le> int c" "int c \<le> b"
        unfolding covered_def S by auto
      with A[of a b] have "int c \<in> ?P" by blast
      then show "c \<in> table" by auto
    next
      assume "c \<in> table"
      then have "int c \<in> ?P" by simp
      from B[OF this] obtain a b where "?m a = Some b" "a \<le> int c" "int c \<le> b" by blast
      then show "covered (write_sparse_set table) c" unfolding covered_def S by force
    qed
  qed
  have c2: "\<forall>p \<in> set (write_sparse_set table).
            fst p \<le> snd p \<and> fst p \<in> ?P \<and> snd p \<in> ?P \<and> fst p - 1 \<notin> ?P \<and> snd p + 1 \<notin> ?P"
  proof
    fix p assume "p \<in> set (write_sparse_set table)"
    then have m: "?m (fst p) = Some (snd p)" unfolding S by auto
    from A[OF m] have 1: "fst p \<le> snd p" and 2: "\<forall>x. fst p \<le> x \<and> x \<le> snd p \<longrightarrow> x \<in> ?P"
      and 3: "fst p - 1 \<notin> ?P" and 4: "snd p + 1 \<notin> ?P" by blast+
    from 1 2 have "fst p \<in> ?P" "snd p \<in> ?P" by auto
    with 1 3 4 show "fst p \<le> snd p \<and> fst p \<in> ?P \<and> snd p \<in> ?P \<and> fst p - 1 \<notin> ?P \<and> snd p + 1 \<notin> ?P"
      by blast
  qed
  have c3: "fst ` set (write_sparse_set table) = {x \<in> ?P. x - 1 \<notin> ?P}"
  proof (intro equalityI subsetI)
    fix x assume "x \<in> fst ` set (write_sparse_set table)"
    then obtain p where "p \<in> set (write_sparse_set table)" "x = fst p" by auto
    with c2 show "x \<in> {x \<in> ?P. x - 1 \<notin> ?P}" by blast
  next
    fix x assume "x \<in> {x \<in> ?P. x - 1 \<notin> ?P}"
    then have xP: "x \<in> ?P" and x1: "x - 1 \<notin> ?P" by auto
    from B[OF xP] obtain a b where ab: "?m a = Some b" "a \<le> x" "x \<le> b" by blast
    have "a = x"
    proof (rule ccontr)
      assume "a \<noteq> x"
      with ab have "a \<le> x - 1 \<and> x - 1 \<le> b" by simp
      with A[OF ab(1)] have "x - 1 \<in> ?P" by blast
      with x1 show False by simp
    qed
    with ab have "(x, b) \<in> set (write_sparse_set table)" unfolding S by simp
    then show "x \<in> fst ` set (write_sparse_set table)" by force
  qed
  from c1 c2 c3 show ?thesis by blast
qed

theorem sparse_set_cover_witness:
  "finite {1, 2, 3, 7 :: nat} \<and>
   (1, 3) \<in> set (write_sparse_set {1, 2, 3, 7}) \<and>
   covered (write_sparse_set {1, 2, 3, 7}) 2 \<and>
   \<not> covered (write_sparse_set {1, 2, 3, 7}) 4 \<and>
   (1::int) \<in> int ` {1, 2, 3, 7} \<and> (3::int) \<in> int ` {1, 2, 3, 7} \<and>
   (1::int) - 1 \<notin> int ` {1, 2, 3, 7} \<and> (3::int) + 1 \<notin> int ` {1, 2, 3, 7}"
proof -
  have fin: "finite {1, 2, 3, 7 :: nat}" by simp
  have ev: "write_sparse_set {1, 2, 3, 7} = [(1, 3), (7, 7)]" by code_simp
  note th = sparse_set_cover [OF fin]
  have mem: "(1, 3) \<in> set (write_sparse_set {1, 2, 3, 7})" unfolding ev by simp
  from th have c: "\<And>c. covered (write_sparse_set {1, 2, 3, 7}) c \<longleftrightarrow> c \<in> {1, 2, 3, 7}"
    by blast
  have c2: "covered (write_sparse_set {1, 2, 3, 7}) 2" unfolding c by simp
  have c4: "\<not> covered (write_sparse_set {1, 2, 3, 7}) 4" unfolding c by simp
  from th mem have "fst (1::int, 3::int) \<in> int ` {1, 2, 3, 7} \<and> snd (1::int, 3::int) \<in> int ` {1, 2, 3, 7} \<and>
     fst (1::int, 3::int) - 1 \<notin> int ` {1, 2, 3, 7} \<and> snd (1::int, 3::int) + 1 \<notin> int ` {1, 2, 3, 7}"
    by blast
  then have e: "(1::int) \<in> int ` {1, 2, 3, 7} \<and> (3::int) \<in> int ` {1, 2, 3, 7} \<and>
     (1::int) - 1 \<notin> int ` {1, 2, 3, 7} \<and> (3::int) + 1 \<notin> int ` {1, 2, 3, 7}"
    unfolding fst_conv snd_conv .
  from fin mem c2 c4 e show ?thesis by blast
qed

lemma sparse_set_example: "write_sparse_set {1, 2, 3, 7} = [(1, 3), (7, 7)]"
  by code_simp

section \<open>Properties of the script tag packer\<close>

lemma encode_script_snoc:
  "encode_script (xs @ [c]) = encode_script xs * 256 + of_char (py_lower_char c)"
  by (simp add: encode_script_def push_bit_eq_mult)

lemma encode_script_Nil: "encode_script [] = 0"
  by (simp add: encode_script_def)

lemma of_char_less_256: "(of_char c :: nat) < 256"
proof -
  have "(of_char c :: nat) mod 256 = of_char c" by (rule of_char_mod_256)
  moreover have "(of_char c :: nat) mod 256 < 256" by simp
  ultimately show ?thesis by (simp only:)
qed

lemma encode_script_inj_lowered:
  assumes "\<forall>c \<in> set xs. (of_char (py_lower_char c) :: nat) \<noteq> 0"
    and "\<forall>c \<in> set ys. (of_char (py_lower_char c) :: nat) \<noteq> 0"
    and "encode_script xs = encode_script ys"
  shows "map py_lower_char xs = map py_lower_char ys"
  using assms
proof (induction xs arbitrary: ys rule: rev_induct)
  case Nil
  show ?case
  proof (cases ys rule: rev_cases)
    case Nil then show ?thesis by simp
  next
    case (snoc zs d)
    with Nil.prems have "encode_script zs * 256 + of_char (py_lower_char d) = 0"
      by (simp add: encode_script_snoc encode_script_Nil)
    with snoc Nil.prems show ?thesis by simp
  qed
next
  case (snoc c xs)
  show ?case
  proof (cases ys rule: rev_cases)
    case Nil
    with snoc.prems have "encode_script xs * 256 + of_char (py_lower_char c) = 0"
      by (simp add: encode_script_snoc encode_script_Nil)
    with snoc.prems show ?thesis by simp
  next
    case (snoc zs d)
    let ?a = "of_char (py_lower_char c) :: nat" and ?b = "of_char (py_lower_char d) :: nat"
    from snoc snoc.prems have eq: "encode_script xs * 256 + ?a = encode_script zs * 256 + ?b"
      by (simp add: encode_script_snoc)
    have "(encode_script xs * 256 + ?a) mod 256 = ?a" using of_char_less_256 by simp
    moreover have "(encode_script zs * 256 + ?b) mod 256 = ?b" using of_char_less_256 by simp
    ultimately have ab: "?a = ?b" using eq by simp
    hence cd: "py_lower_char c = py_lower_char d" by simp
    from eq ab have "encode_script xs = encode_script zs" by simp
    with snoc.IH[of zs] snoc.prems snoc have "map py_lower_char xs = map py_lower_char zs" by simp
    with cd snoc show ?thesis by simp
  qed
qed

lemma encode_script_upper: "encode_script xs < 256 ^ length xs"
proof (induction xs rule: rev_induct)
  case Nil
  show ?case by (simp add: encode_script_Nil)
next
  case (snoc c xs)
  define e p oc where "e = encode_script xs" and "p = (256::nat) ^ length xs"
    and "oc = (of_char (py_lower_char c) :: nat)"
  have "e + 1 \<le> p" using snoc by (simp add: e_def p_def)
  then have "(e + 1) * 256 \<le> p * 256" by (rule mult_le_mono1)
  then have "e * 256 + 256 \<le> p * 256" by (simp add: algebra_simps)
  moreover have "oc < 256" unfolding oc_def by (rule of_char_less_256)
  ultimately have "e * 256 + oc < p * 256" by linarith
  then show ?case by (simp add: encode_script_snoc e_def p_def oc_def)
qed

lemma encode_script_lower:
  assumes "xs \<noteq> []" "\<forall>c \<in> set xs. (of_char (py_lower_char c) :: nat) \<noteq> 0"
  shows "256 ^ (length xs - 1) \<le> encode_script xs"
  using assms
proof (induction xs rule: rev_induct)
  case Nil
  then show ?case by simp
next
  case (snoc c xs)
  show ?case
  proof (cases "xs = []")
    case True
    have "encode_script ([] @ [c]) = of_char (py_lower_char c)"
      unfolding encode_script_snoc encode_script_Nil by simp
    with True snoc.prems show ?thesis by (simp add: Suc_le_eq)
  next
    case False
    with snoc have "256 ^ (length xs - 1) \<le> encode_script xs" by simp
    then have "256 ^ (length xs - 1) * 256 \<le> encode_script xs * 256" by (rule mult_le_mono1)
    moreover have "256 ^ (length xs - 1) * 256 = (256::nat) ^ length xs"
      using False by (cases xs) simp_all
    ultimately show ?thesis by (simp add: encode_script_snoc)
  qed
qed

lemma lowercase_char_fixed:
  assumes "97 \<le> (of_char c :: nat)" "(of_char c :: nat) \<le> 122"
  shows "py_lower_char c = c"
  using assms by (simp add: py_lower_char_def Let_def)

lemma lowercase_code_facts:
  assumes "lowercase_code a"
  shows "a \<noteq> []" "map py_lower_char a = a" "\<forall>c \<in> set a. (of_char (py_lower_char c) :: nat) \<noteq> 0"
proof -
  from assms have len: "1 \<le> length a"
    and chars: "\<forall>c \<in> set a. 97 \<le> (of_char c :: nat) \<and> (of_char c :: nat) \<le> 122"
    by (simp_all add: lowercase_code_def list_all_iff)
  show "a \<noteq> []" using len by auto
  have fixed: "\<forall>c \<in> set a. py_lower_char c = c" using chars lowercase_char_fixed by blast
  then show "map py_lower_char a = a" by (simp add: map_idI)
  show "\<forall>c \<in> set a. (of_char (py_lower_char c) :: nat) \<noteq> 0"
  proof
    fix c assume c: "c \<in> set a"
    with fixed have "py_lower_char c = c" by blast
    moreover from c chars have "97 \<le> (of_char c :: nat)" by blast
    ultimately show "(of_char (py_lower_char c) :: nat) \<noteq> 0" by simp
  qed
qed

text \<open>
  C9. The script tag packer is injective on codes of length 1 to 4 over lowercase ASCII
  letters: two such codes with the same tag are equal. A code of length \<open>n\<close> packs into
  the range \<open>[256^(n-1), 256^n)\<close>, so a shorter code packs to a smaller integer than
  a longer one.
\<close>

theorem encode_script_injective:
  assumes "lowercase_code a" "lowercase_code b"
  shows "(encode_script a = encode_script b \<longrightarrow> a = b) \<and>
         256 ^ (length a - 1) \<le> encode_script a \<and> encode_script a < 256 ^ length a \<and>
         (length a < length b \<longrightarrow> encode_script a < encode_script b)"
proof -
  note fa = lowercase_code_facts[OF assms(1)] and fb = lowercase_code_facts[OF assms(2)]
  have inj: "encode_script a = encode_script b \<longrightarrow> a = b"
  proof
    assume "encode_script a = encode_script b"
    then have "map py_lower_char a = map py_lower_char b"
      by (rule encode_script_inj_lowered[OF fa(3) fb(3)])
    then show "a = b" unfolding fa(2) fb(2) .
  qed
  have lo: "256 ^ (length a - 1) \<le> encode_script a" by (rule encode_script_lower[OF fa(1) fa(3)])
  have up: "encode_script a < 256 ^ length a" by (rule encode_script_upper)
  have sep: "length a < length b \<longrightarrow> encode_script a < encode_script b"
  proof
    assume "length a < length b"
    then have "length a \<le> length b - 1" by simp
    then have "(256::nat) ^ length a \<le> 256 ^ (length b - 1)" by (intro power_increasing) simp_all
    also have "\<dots> \<le> encode_script b" by (rule encode_script_lower[OF fb(1) fb(3)])
    finally show "encode_script a < encode_script b" using up by simp
  qed
  from inj lo up sep show ?thesis by blast
qed

theorem encode_script_injective_witness:
  "lowercase_code ''latn'' \<and> lowercase_code ''zyyy'' \<and>
   encode_script ''latn'' \<noteq> encode_script ''zyyy'' \<and>
   256 ^ (length ''latn'' - 1) \<le> encode_script ''latn'' \<and>
   encode_script ''latn'' < 256 ^ length ''latn''"
proof -
  have a: "lowercase_code ''latn''" by (simp add: lowercase_code_def)
  have b: "lowercase_code ''zyyy''" by (simp add: lowercase_code_def)
  have ne: "''latn'' \<noteq> ''zyyy''" by simp
  show ?thesis using a b ne encode_script_injective [OF a b] by blast
qed

section \<open>Properties of the UnicodeData records\<close>

lemma py_bind_Inr [simp]: "py_bind (Inr x) f = f x"
  by (simp add: py_bind_def)

lemma py_bind_Inl [simp]: "py_bind (Inl e) f = Inl e"
  by (simp add: py_bind_def)

lemma py_bind_eq_Inr: "py_bind m f = Inr y \<longleftrightarrow> (\<exists>x. m = Inr x \<and> f x = Inr y)"
  by (cases m) simp_all

lemma field_eq_Inr: "field flds i = Inr x \<longleftrightarrow> i < length flds \<and> x = flds ! i"
  by (auto simp: field_def)

lemma store_properties_frame:
  "simple_upper (store_properties code gc cc bc bm s) = simple_upper s"
  "simple_lower (store_properties code gc cc bc bm s) = simple_lower s"
  "simple_title (store_properties code gc cc bc bm s) = simple_title s"
  "simple_fold (store_properties code gc cc bc bm s) = simple_fold s"
  "canonical (store_properties code gc cc bc bm s) = canonical s"
  "composition_exclusion (store_properties code gc cc bc bm s) = composition_exclusion s"
  "corrected_names (store_properties code gc cc bc bm s) = corrected_names s"
  "full_fold (store_properties code gc cc bc bm s) = full_fold s"
  "character_names (store_properties code gc cc bc bm s) = character_names s"
  "combining_class (store_properties code gc cc bc bm s) = AList.update code cc (combining_class s)"
  by (simp_all add: store_properties_def Let_def)

lemma store_decomposition_frame:
  "simple_upper (store_decomposition code canon dchars s) = simple_upper s"
  "simple_lower (store_decomposition code canon dchars s) = simple_lower s"
  "simple_title (store_decomposition code canon dchars s) = simple_title s"
  "simple_fold (store_decomposition code canon dchars s) = simple_fold s"
  "combining_class (store_decomposition code canon dchars s) = combining_class s"
  "corrected_names (store_decomposition code canon dchars s) = corrected_names s"
  "full_fold (store_decomposition code canon dchars s) = full_fold s"
  "character_names (store_decomposition code canon dchars s) = character_names s"
  "canonical (store_decomposition code canon dchars s) =
     (if canon then AList.update code dchars (canonical s) else canonical s)"
  "composition_exclusion (store_decomposition code canon dchars s) =
     (if canon \<and> length dchars = 1 then insert code (composition_exclusion s)
      else composition_exclusion s)"
  by (simp_all add: store_decomposition_def Let_def)

lemma store_case_frame:
  "simple_fold (store_case code uc lc tc s) = simple_fold s"
  "canonical (store_case code uc lc tc s) = canonical s"
  "composition_exclusion (store_case code uc lc tc s) = composition_exclusion s"
  "combining_class (store_case code uc lc tc s) = combining_class s"
  "corrected_names (store_case code uc lc tc s) = corrected_names s"
  "full_fold (store_case code uc lc tc s) = full_fold s"
  "character_names (store_case code uc lc tc s) = character_names s"
  "simple_upper (store_case code uc lc tc s) =
     (if uc \<noteq> code then AList.update code uc (simple_upper s) else simple_upper s)"
  "simple_lower (store_case code uc lc tc s) =
     (if lc \<noteq> code then AList.update code lc (simple_lower s) else simple_lower s)"
  "simple_title (store_case code uc lc tc s) =
     (if tc \<noteq> uc then AList.update code tc (simple_title s) else simple_title s)"
  by (simp_all add: store_case_def Let_def)

lemma record_name_frame:
  assumes "record_name code name s = Inr s'"
  shows "simple_upper s' = simple_upper s" "simple_lower s' = simple_lower s"
    "simple_title s' = simple_title s" "simple_fold s' = simple_fold s"
    "canonical s' = canonical s" "composition_exclusion s' = composition_exclusion s"
    "combining_class s' = combining_class s" "corrected_names s' = corrected_names s"
    "full_fold s' = full_fold s"
    "character_names s' = (if take 1 name \<noteq> ''<'' then AList.update code name (character_names s)
                           else character_names s)"
  using assms by (auto simp: record_name_def Let_def split: if_splits)

lemma record_properties_Inr:
  assumes "record_properties code flds s = Inr s'"
  shows "\<exists>gc cc bc bm. 3 < length flds \<and> int10 (flds ! 3) = Inr cc \<and>
           s' = store_properties code gc cc bc bm s"
proof -
  from assms obtain gc where gc: "field flds 2 = Inr gc"
    and r: "(if length gc < 2 then Inl IndexError
       else py_bind (field flds 3) (\<lambda>ccf. py_bind (int10 ccf) (\<lambda>cc.
            py_bind (field flds 4) (\<lambda>bc. py_bind (field flds 9) (\<lambda>bm.
              Inr (store_properties code gc cc bc bm s)))))) = Inr s'"
    unfolding record_properties_def py_bind_eq_Inr by blast
  have "\<not> length gc < 2" using r by (cases "length gc < 2") simp_all
  with r have "py_bind (field flds 3) (\<lambda>ccf. py_bind (int10 ccf) (\<lambda>cc.
            py_bind (field flds 4) (\<lambda>bc. py_bind (field flds 9) (\<lambda>bm.
              Inr (store_properties code gc cc bc bm s))))) = Inr s'" by simp
  then obtain ccf cc bc bm where "field flds 3 = Inr ccf" "int10 ccf = Inr cc"
    "Inr (store_properties code gc cc bc bm s) = Inr s'"
    unfolding py_bind_eq_Inr by blast
  then show ?thesis unfolding field_eq_Inr by blast
qed

lemma record_decomposition_Inr:
  assumes "record_decomposition code decomp s = Inr s'"
  shows "s' = s \<and> decomp = [] \<or>
         (\<exists>canon dchars. decomp \<noteq> [] \<and> canon = (take 1 decomp \<noteq> ''<'') \<and>
            split_codes (if \<not> canon then py_strip (after_sep CHR ''>'' decomp) else decomp) = Inr dchars \<and>
            s' = store_decomposition code canon dchars s)"
proof (cases "decomp = []")
  case True
  with assms show ?thesis by (simp add: record_decomposition_def)
next
  case False
  with assms have "py_bind (split_codes (if \<not> (take 1 decomp \<noteq> ''<'') then py_strip (after_sep CHR ''>'' decomp) else decomp))
      (\<lambda>dchars. Inr (store_decomposition code (take 1 decomp \<noteq> ''<'') dchars s)) = Inr s'"
    by (simp add: record_decomposition_def Let_def)
  then obtain dchars where
    "split_codes (if \<not> (take 1 decomp \<noteq> ''<'') then py_strip (after_sep CHR ''>'' decomp) else decomp) = Inr dchars"
    "Inr (store_decomposition code (take 1 decomp \<noteq> ''<'') dchars s) = Inr s'"
    unfolding py_bind_eq_Inr by blast
  with False show ?thesis by blast
qed

lemma record_case_Inr:
  assumes "record_case code flds s = Inr s'"
  shows "\<exists>uc lc tc. 14 < length flds \<and>
           (if flds ! 12 \<noteq> [] then int16 (flds ! 12) else Inr code) = Inr uc \<and>
           (if flds ! 13 \<noteq> [] then int16 (flds ! 13) else Inr code) = Inr lc \<and>
           (if flds ! 14 \<noteq> [] then int16 (flds ! 14) else Inr uc) = Inr tc \<and>
           s' = store_case code uc lc tc s"
proof -
  from assms obtain ucf lcf tcf uc lc tc where
    "field flds 12 = Inr ucf" "field flds 13 = Inr lcf" "field flds 14 = Inr tcf"
    "(if ucf \<noteq> [] then int16 ucf else Inr code) = Inr uc"
    "(if lcf \<noteq> [] then int16 lcf else Inr code) = Inr lc"
    "(if tcf \<noteq> [] then int16 tcf else Inr uc) = Inr tc"
    "Inr (store_case code uc lc tc s) = Inr s'"
    unfolding record_case_def py_bind_eq_Inr by blast
  then show ?thesis unfolding field_eq_Inr by blast
qed

lemma unicode_data_record_Inr:
  assumes "unicode_data_record flds s = Inr s'"
  shows "\<exists>code s1 s2 s3. 5 < length flds \<and> int16 (flds ! 0) = Inr code \<and>
           record_name code (flds ! 1) s = Inr s1 \<and>
           record_properties code flds s1 = Inr s2 \<and>
           record_decomposition code (flds ! 5) s2 = Inr s3 \<and>
           record_case code flds s3 = Inr s'"
proof -
  from assms obtain f0 code name s1 s2 decomp s3 where
    "field flds 0 = Inr f0" "int16 f0 = Inr code" "field flds 1 = Inr name"
    "record_name code name s = Inr s1" "record_properties code flds s1 = Inr s2"
    "field flds 5 = Inr decomp" "record_decomposition code decomp s2 = Inr s3"
    "record_case code flds s3 = Inr s'"
    unfolding unicode_data_record_def py_bind_eq_Inr by blast
  then show ?thesis unfolding field_eq_Inr by blast
qed

lemma process_file_records:
  "process_file src callback minfields delim s =
     run_records callback (file_records src minfields delim) s"
proof (induction src arbitrary: s)
  case Nil
  show ?case by (simp add: file_records_def)
next
  case (Cons line src)
  have rec: "file_records (line # src) minfields delim =
      (let text = py_strip (takeWhile (\<lambda>c. c \<noteq> CHR ''#'') line) in
       if text \<noteq> [] \<and> minfields \<le> length (py_split delim text)
       then map py_strip (take minfields (py_split delim text)) # file_records src minfields delim
       else file_records src minfields delim)"
    by (simp add: file_records_def Let_def)
  show ?case
    unfolding rec process_file.simps Let_def
    by (simp add: Cons.IH[abs_def])
qed

lemma run_records_simple_case:
  assumes "unicode_data_record flds s = Inr s'"
  shows "\<exists>code uc lc tc.
           case_fields flds = Some (code, uc, lc, tc) \<and>
           simple_upper s' =
             (if uc \<noteq> code then AList.update code uc (simple_upper s) else simple_upper s) \<and>
           simple_lower s' =
             (if lc \<noteq> code then AList.update code lc (simple_lower s) else simple_lower s) \<and>
           simple_title s' =
             (if tc \<noteq> uc then AList.update code tc (simple_title s) else simple_title s)"
proof -
  from unicode_data_record_Inr[OF assms] obtain code s1 s2 s3 where
    code: "int16 (flds ! 0) = Inr code" and
    1: "record_name code (flds ! 1) s = Inr s1" and
    2: "record_properties code flds s1 = Inr s2" and
    3: "record_decomposition code (flds ! 5) s2 = Inr s3" and
    4: "record_case code flds s3 = Inr s'" by blast
  from record_properties_Inr[OF 2] obtain gc cc bc bm where
    s2: "s2 = store_properties code gc cc bc bm s1" by blast
  from record_decomposition_Inr[OF 3] have
    s3: "simple_upper s3 = simple_upper s2 \<and> simple_lower s3 = simple_lower s2 \<and>
         simple_title s3 = simple_title s2"
    by (auto simp: store_decomposition_frame)
  from record_case_Inr[OF 4] obtain uc lc tc where
    uc: "(if flds ! 12 \<noteq> [] then int16 (flds ! 12) else Inr code) = Inr uc" and
    lc: "(if flds ! 13 \<noteq> [] then int16 (flds ! 13) else Inr code) = Inr lc" and
    tc: "(if flds ! 14 \<noteq> [] then int16 (flds ! 14) else Inr uc) = Inr tc" and
    s': "s' = store_case code uc lc tc s3" by blast
  have cf: "case_fields flds = Some (code, uc, lc, tc)"
    using code uc lc tc by (simp add: case_fields_def split: if_splits)
  have pre: "simple_upper s3 = simple_upper s" "simple_lower s3 = simple_lower s"
    "simple_title s3 = simple_title s"
    using s3 s2 record_name_frame(1-3)[OF 1] by (simp_all add: store_properties_frame)
  show ?thesis
    using cf unfolding s' store_case_frame pre by blast
qed

lemma keys_update_if:
  "fst ` set (if b then AList.update k v al else al) = (if b then {k} else {}) \<union> fst ` set al"
  by (simp add: dom_update)

lemma run_records_case_keys:
  assumes "run_records unicode_data_record rs s = Inr t"
  shows "fst ` set (simple_upper t) = fst ` set (simple_upper s) \<union>
           {code. \<exists>flds \<in> set rs. \<exists>uc lc tc. case_fields flds = Some (code, uc, lc, tc) \<and> uc \<noteq> code}"
    and "fst ` set (simple_lower t) = fst ` set (simple_lower s) \<union>
           {code. \<exists>flds \<in> set rs. \<exists>uc lc tc. case_fields flds = Some (code, uc, lc, tc) \<and> lc \<noteq> code}"
    and "fst ` set (simple_title t) = fst ` set (simple_title s) \<union>
           {code. \<exists>flds \<in> set rs. \<exists>uc lc tc. case_fields flds = Some (code, uc, lc, tc) \<and> tc \<noteq> uc}"
  using assms
proof (induction rs arbitrary: s)
  case Nil
  { case 1 then show ?case by simp }
  { case 2 then show ?case by simp }
  { case 3 then show ?case by simp }
next
  case (Cons r rs)
  { case 1
    then obtain s1 where r: "unicode_data_record r s = Inr s1"
      and rest: "run_records unicode_data_record rs s1 = Inr t"
      by (auto simp: py_bind_eq_Inr)
    from run_records_simple_case[OF r] obtain code uc lc tc where
      cf: "case_fields r = Some (code, uc, lc, tc)" and
      u: "simple_upper s1 =
             (if uc \<noteq> code then AList.update code uc (simple_upper s) else simple_upper s)"
      by blast
    have k: "fst ` set (simple_upper s1) = (if uc \<noteq> code then {code} else {}) \<union> fst ` set (simple_upper s)"
      unfolding u by (rule keys_update_if)
    have "(if uc \<noteq> code then {code} else {}) =
          {c. \<exists>uc lc tc. case_fields r = Some (c, uc, lc, tc) \<and> uc \<noteq> c}"
      using cf by auto
    then show ?case unfolding Cons.IH(1)[OF rest] k by auto }
  { case 2
    then obtain s1 where r: "unicode_data_record r s = Inr s1"
      and rest: "run_records unicode_data_record rs s1 = Inr t"
      by (auto simp: py_bind_eq_Inr)
    from run_records_simple_case[OF r] obtain code uc lc tc where
      cf: "case_fields r = Some (code, uc, lc, tc)" and
      u: "simple_lower s1 =
             (if lc \<noteq> code then AList.update code lc (simple_lower s) else simple_lower s)"
      by blast
    have k: "fst ` set (simple_lower s1) = (if lc \<noteq> code then {code} else {}) \<union> fst ` set (simple_lower s)"
      unfolding u by (rule keys_update_if)
    have "(if lc \<noteq> code then {code} else {}) =
          {c. \<exists>uc lc tc. case_fields r = Some (c, uc, lc, tc) \<and> lc \<noteq> c}"
      using cf by auto
    then show ?case unfolding Cons.IH(2)[OF rest] k by auto }
  { case 3
    then obtain s1 where r: "unicode_data_record r s = Inr s1"
      and rest: "run_records unicode_data_record rs s1 = Inr t"
      by (auto simp: py_bind_eq_Inr)
    from run_records_simple_case[OF r] obtain code uc lc tc where
      cf: "case_fields r = Some (code, uc, lc, tc)" and
      u: "simple_title s1 =
             (if tc \<noteq> uc then AList.update code tc (simple_title s) else simple_title s)"
      by blast
    have k: "fst ` set (simple_title s1) = (if tc \<noteq> uc then {code} else {}) \<union> fst ` set (simple_title s)"
      unfolding u by (rule keys_update_if)
    have "(if tc \<noteq> uc then {code} else {}) =
          {c. \<exists>uc lc tc. case_fields r = Some (c, uc, lc, tc) \<and> tc \<noteq> uc}"
      using cf by auto
    then show ?case unfolding Cons.IH(3)[OF rest] k by auto }
qed

text \<open>
  C10. When a UnicodeData record is read, the simple uppercase and lowercase mappings
  default to the codepoint itself and the simple titlecase mapping defaults to the
  uppercase mapping (\<open>case_fields\<close>); an uppercase or lowercase entry is stored exactly
  when the mapping differs from the codepoint, a titlecase entry exactly when the
  titlecase mapping differs from the uppercase mapping. So, after the whole file, the
  simple titlecase table has exactly the codepoints of the records whose titlecase
  mapping differs from their uppercase mapping (and likewise for the other two tables).
\<close>

theorem simple_titlecase_default:
  "(unicode_data_record flds s = Inr s' \<longrightarrow>
      (\<exists>code uc lc tc.
         case_fields flds = Some (code, uc, lc, tc) \<and>
         simple_upper s' =
           (if uc \<noteq> code then AList.update code uc (simple_upper s) else simple_upper s) \<and>
         simple_lower s' =
           (if lc \<noteq> code then AList.update code lc (simple_lower s) else simple_lower s) \<and>
         simple_title s' =
           (if tc \<noteq> uc then AList.update code tc (simple_title s) else simple_title s))) \<and>
   (process_file src unicode_data_record 15 CHR '';'' empty_tables = Inr t \<longrightarrow>
      fst ` set (simple_title t) =
        {code. \<exists>flds \<in> set (file_records src 15 CHR '';''). \<exists>uc lc tc.
                 case_fields flds = Some (code, uc, lc, tc) \<and> tc \<noteq> uc} \<and>
      fst ` set (simple_upper t) =
        {code. \<exists>flds \<in> set (file_records src 15 CHR '';''). \<exists>uc lc tc.
                 case_fields flds = Some (code, uc, lc, tc) \<and> uc \<noteq> code} \<and>
      fst ` set (simple_lower t) =
        {code. \<exists>flds \<in> set (file_records src 15 CHR '';''). \<exists>uc lc tc.
                 case_fields flds = Some (code, uc, lc, tc) \<and> lc \<noteq> code})"
proof (intro conjI impI)
  assume "unicode_data_record flds s = Inr s'"
  then show "\<exists>code uc lc tc.
         case_fields flds = Some (code, uc, lc, tc) \<and>
         simple_upper s' =
           (if uc \<noteq> code then AList.update code uc (simple_upper s) else simple_upper s) \<and>
         simple_lower s' =
           (if lc \<noteq> code then AList.update code lc (simple_lower s) else simple_lower s) \<and>
         simple_title s' =
           (if tc \<noteq> uc then AList.update code tc (simple_title s) else simple_title s)"
    by (rule run_records_simple_case)
next
  assume "process_file src unicode_data_record 15 CHR '';'' empty_tables = Inr t"
  then have run: "run_records unicode_data_record (file_records src 15 CHR '';'') empty_tables = Inr t"
    unfolding process_file_records .
  have e: "simple_upper empty_tables = []" "simple_lower empty_tables = []"
    "simple_title empty_tables = []" by (simp_all add: empty_tables_def)
  show "fst ` set (simple_title t) =
        {code. \<exists>flds \<in> set (file_records src 15 CHR '';''). \<exists>uc lc tc.
                 case_fields flds = Some (code, uc, lc, tc) \<and> tc \<noteq> uc}"
    unfolding run_records_case_keys(3)[OF run] e by simp
  show "fst ` set (simple_upper t) =
        {code. \<exists>flds \<in> set (file_records src 15 CHR '';''). \<exists>uc lc tc.
                 case_fields flds = Some (code, uc, lc, tc) \<and> uc \<noteq> code}"
    unfolding run_records_case_keys(1)[OF run] e by simp
  show "fst ` set (simple_lower t) =
        {code. \<exists>flds \<in> set (file_records src 15 CHR '';''). \<exists>uc lc tc.
                 case_fields flds = Some (code, uc, lc, tc) \<and> lc \<noteq> code}"
    unfolding run_records_case_keys(2)[OF run] e by simp
qed

theorem simple_titlecase_default_witness:
  "\<exists>s'. unicode_data_record
          [''01C5'', ''LATIN CAPITAL LETTER D WITH SMALL LETTER Z WITH CARON'', ''Lt'', ''0'',
           ''L'', ''<compat> 0044 017E'', [], [], [], ''N'',
           ''LATIN LETTER CAPITAL D SMALL Z HACEK'', [], ''01C4'', ''01C6'', ''01C5'']
          empty_tables = Inr s' \<and>
        simple_upper s' = [(453, 452)] \<and> simple_lower s' = [(453, 454)] \<and>
        simple_title s' = [(453, 453)]"
proof -
  let ?F = "[''01C5'', ''LATIN CAPITAL LETTER D WITH SMALL LETTER Z WITH CARON'', ''Lt'', ''0'',
           ''L'', ''<compat> 0044 017E'', [], [], [], ''N'',
           ''LATIN LETTER CAPITAL D SMALL Z HACEK'', [], ''01C4'', ''01C6'', ''01C5'']"
  have i: "int16 ''01C5'' = Inr 453" "int16 ''01C4'' = Inr 452" "int16 ''01C6'' = Inr 454"
    "int10 ''0'' = Inr 0" by code_simp+
  have sc: "split_codes (py_strip (after_sep CHR ''>'' ''<compat> 0044 017E'')) = Inr [68, 382]"
    by code_simp
  have "\<exists>s'. unicode_data_record ?F empty_tables = Inr s'"
    by (simp add: unicode_data_record_def record_name_def record_properties_def
        record_decomposition_def record_case_def field_def ends_with_def Let_def i sc)
  then obtain s' where ev: "unicode_data_record ?F empty_tables = Inr s'" by blast
  have cf: "case_fields ?F = Some (453, 452, 454, 453)" by code_simp
  from simple_titlecase_default [THEN conjunct1, rule_format, OF ev] cf
  have "simple_upper s' = (if (452::nat) \<noteq> 453 then AList.update 453 452 (simple_upper empty_tables)
                           else simple_upper empty_tables) \<and>
        simple_lower s' = (if (454::nat) \<noteq> 453 then AList.update 453 454 (simple_lower empty_tables)
                           else simple_lower empty_tables) \<and>
        simple_title s' = (if (453::nat) \<noteq> 452 then AList.update 453 453 (simple_title empty_tables)
                           else simple_title empty_tables)"
    by auto
  then have "simple_upper s' = [(453, 452)] \<and> simple_lower s' = [(453, 454)] \<and>
        simple_title s' = [(453, 453)]"
    by (simp add: empty_tables_def)
  with ev show ?thesis by blast
qed

section \<open>Properties of case folding\<close>

lemma default_fold_keys:
  "map_of (fold (\<lambda>code sf. if map_of sf code = None then AList.update code code sf else sf) ks sf) code =
     (case map_of sf code of
        Some m \<Rightarrow> Some m
      | None \<Rightarrow> if code \<in> set ks then Some code else None)"
proof (induction ks arbitrary: sf)
  case Nil
  show ?case by (simp split: option.split)
next
  case (Cons k ks)
  show ?case
  proof (cases "map_of sf k")
    case None
    then show ?thesis
      by (simp add: Cons.IH update_conv' split: option.split)
  next
    case (Some m)
    then show ?thesis
      by (auto simp: Cons.IH split: option.split)
  qed
qed

lemma map_of_default_fold:
  "map_of (default_fold lower sf) code =
     (case map_of sf code of
        Some m \<Rightarrow> Some m
      | None \<Rightarrow> if code \<in> fst ` set lower then Some code else None)"
  unfolding default_fold_def default_fold_keys by simp

lemma divergent_fold_keys:
  "map_of (fold (\<lambda>code temp_fold.
             if map_of lower code = None \<or> map_of lower code \<noteq> map_of sf code
             then AList.update code (the (map_of sf code)) temp_fold else temp_fold) ks tf) code =
     (if code \<in> set ks \<and> (map_of lower code = None \<or> map_of lower code \<noteq> map_of sf code)
      then Some (the (map_of sf code)) else map_of tf code)"
proof (induction ks arbitrary: tf)
  case Nil
  show ?case by simp
next
  case (Cons k ks)
  show ?case
  proof -
    let ?f = "\<lambda>code temp_fold.
             if map_of lower code = None \<or> map_of lower code \<noteq> map_of sf code
             then AList.update code (the (map_of sf code)) temp_fold else temp_fold"
    have "map_of (fold ?f (k # ks) tf) code = map_of (fold ?f ks (?f k tf)) code" by simp
    also have "\<dots> = (if code \<in> set ks \<and> (map_of lower code = None \<or> map_of lower code \<noteq> map_of sf code)
      then Some (the (map_of sf code)) else map_of (?f k tf) code)"
      by (rule Cons.IH)
    also have "map_of (?f k tf) code =
       (if k = code \<and> (map_of lower code = None \<or> map_of lower code \<noteq> map_of sf code)
        then Some (the (map_of sf code)) else map_of tf code)"
      by (cases "k = code") (auto simp: update_conv')
    finally show ?thesis by auto
  qed
qed

lemma map_of_divergent_fold:
  "map_of (divergent_fold lower sf) code =
     (case map_of sf code of
        None \<Rightarrow> None
      | Some m \<Rightarrow> if map_of lower code = Some m then None else Some m)"
proof (cases "map_of sf code")
  case None
  then have "code \<notin> set (map fst sf)" by (simp add: map_of_eq_None_iff)
  with None show ?thesis unfolding divergent_fold_def divergent_fold_keys by simp
next
  case (Some m)
  then have "code \<in> set (map fst sf)"
    by (metis map_of_eq_None_iff option.distinct(1) set_map)
  with Some show ?thesis unfolding divergent_fold_def divergent_fold_keys by auto
qed

lemma case_folding_record_Inr:
  assumes "case_folding_record flds s = Inr s'"
  shows "\<exists>code. int16 (flds ! 0) = Inr code \<and>
           (flds ! 1 = ''C'' \<or> flds ! 1 = ''S'' \<longrightarrow>
              (\<exists>mapping. int16 (flds ! 2) = Inr mapping \<and>
                 s' = s\<lparr>simple_fold := AList.update code mapping (simple_fold s)\<rparr>)) \<and>
           (flds ! 1 = ''F'' \<longrightarrow>
              (\<exists>values. split_codes (flds ! 2) = Inr values \<and>
                 s' = (if length values > 1
                       then s\<lparr>full_fold := AList.update code values (full_fold s)\<rparr> else s))) \<and>
           (flds ! 1 \<noteq> ''C'' \<and> flds ! 1 \<noteq> ''S'' \<and> flds ! 1 \<noteq> ''F'' \<longrightarrow> s' = s)"
proof -
  from assms obtain f0 code status where
    f0: "field flds 0 = Inr f0" and code: "int16 f0 = Inr code" and st: "field flds 1 = Inr status"
    and r: "(if status = ''C'' \<or> status = ''S'' then
       py_bind (field flds 2) (\<lambda>f2.
       py_bind (int16 f2) (\<lambda>mapping.
         Inr (s\<lparr>simple_fold := AList.update code mapping (simple_fold s)\<rparr>)))
     else if status = ''F'' then
       py_bind (field flds 2) (\<lambda>f2.
       py_bind (split_codes f2) (\<lambda>values.
         Inr (if length values > 1
              then s\<lparr>full_fold := AList.update code values (full_fold s)\<rparr> else s)))
     else Inr s) = Inr s'"
    unfolding case_folding_record_def py_bind_eq_Inr by blast
  from f0 code have c0: "int16 (flds ! 0) = Inr code" by (simp add: field_eq_Inr)
  from st have st': "flds ! 1 = status" by (simp add: field_eq_Inr)
  have a: "flds ! 1 = ''C'' \<or> flds ! 1 = ''S'' \<longrightarrow>
              (\<exists>mapping. int16 (flds ! 2) = Inr mapping \<and>
                 s' = s\<lparr>simple_fold := AList.update code mapping (simple_fold s)\<rparr>)"
  proof
    assume "flds ! 1 = ''C'' \<or> flds ! 1 = ''S''"
    then have cs: "status = ''C'' \<or> status = ''S''" unfolding st' .
    with r have "py_bind (field flds 2) (\<lambda>f2.
       py_bind (int16 f2) (\<lambda>mapping.
         Inr (s\<lparr>simple_fold := AList.update code mapping (simple_fold s)\<rparr>))) = Inr s'"
      by (simp only: if_True)
    then obtain f2 mapping where f2: "field flds 2 = Inr f2" and m: "int16 f2 = Inr mapping"
      and e: "Inr (s\<lparr>simple_fold := AList.update code mapping (simple_fold s)\<rparr>) = Inr s'"
      unfolding py_bind_eq_Inr by blast
    from f2 m have m': "int16 (flds ! 2) = Inr mapping" by (simp add: field_eq_Inr)
    from e have e': "s' = s\<lparr>simple_fold := AList.update code mapping (simple_fold s)\<rparr>"
      by (simp only: sum.inject)
    from m' e' show "\<exists>mapping. int16 (flds ! 2) = Inr mapping \<and>
                 s' = s\<lparr>simple_fold := AList.update code mapping (simple_fold s)\<rparr>" by blast
  qed
  have b: "flds ! 1 = ''F'' \<longrightarrow>
              (\<exists>values. split_codes (flds ! 2) = Inr values \<and>
                 s' = (if length values > 1
                       then s\<lparr>full_fold := AList.update code values (full_fold s)\<rparr> else s))"
  proof
    assume "flds ! 1 = ''F''"
    then have f: "status = ''F''" unfolding st' .
    then have nc: "\<not> (status = ''C'' \<or> status = ''S'')" by simp
    have "(if status = ''F'' then
       py_bind (field flds 2) (\<lambda>f2.
       py_bind (split_codes f2) (\<lambda>values.
         Inr (if length values > 1
              then s\<lparr>full_fold := AList.update code values (full_fold s)\<rparr> else s)))
     else Inr s) = Inr s'" using r nc by (simp only: if_False)
    with f have "py_bind (field flds 2) (\<lambda>f2.
       py_bind (split_codes f2) (\<lambda>values.
         Inr (if length values > 1
              then s\<lparr>full_fold := AList.update code values (full_fold s)\<rparr> else s))) = Inr s'"
      by (simp only: if_True refl)
    then obtain f2 vs where f2: "field flds 2 = Inr f2" and v: "split_codes f2 = Inr vs"
      and e: "Inr (if length vs > 1
              then s\<lparr>full_fold := AList.update code vs (full_fold s)\<rparr> else s) = Inr s'"
      unfolding py_bind_eq_Inr by blast
    from f2 v have v': "split_codes (flds ! 2) = Inr vs" by (simp add: field_eq_Inr)
    from e have e': "s' = (if length vs > 1
              then s\<lparr>full_fold := AList.update code vs (full_fold s)\<rparr> else s)"
      by (simp only: sum.inject)
    from v' e' show "\<exists>values. split_codes (flds ! 2) = Inr values \<and>
                 s' = (if length values > 1
                       then s\<lparr>full_fold := AList.update code values (full_fold s)\<rparr> else s)"
      by blast
  qed
  have c: "flds ! 1 \<noteq> ''C'' \<and> flds ! 1 \<noteq> ''S'' \<and> flds ! 1 \<noteq> ''F'' \<longrightarrow> s' = s"
  proof
    assume "flds ! 1 \<noteq> ''C'' \<and> flds ! 1 \<noteq> ''S'' \<and> flds ! 1 \<noteq> ''F''"
    then have nc: "\<not> (status = ''C'' \<or> status = ''S'')" and nf: "\<not> status = ''F''"
      unfolding st' by blast+
    from r nc nf have "(Inr s :: py_error + tables) = Inr s'" by (simp only: if_False)
    then show "s' = s" by (simp only: sum.inject)
  qed
  from c0 a b c show ?thesis by blast
qed

text \<open>
  C5 as stated fails: a codepoint with a simple lowercase mapping and no explicit simple
  fold (here U+0130 with lowercase U+0069) is given the codepoint itself as its fold,
  not its lowercase value, and therefore stays in the emitted table.
\<close>

theorem fold_normalization_counterexample:
  "default_fold [(304, 105)] [] = [(304, 304)] \<and>
   simple_fold (fold_normalization (empty_tables\<lparr>simple_lower := [(304, 105)]\<rparr>)) = [(304, 304)]"
  by (simp add: fold_normalization_def default_fold_def divergent_fold_def empty_tables_def)

text \<open>
  C5 (amended). Fold normalization gives every codepoint that has a simple lowercase
  mapping but no explicit simple fold the codepoint itself as its fold, and then drops
  every codepoint whose fold equals its simple lowercase value, so the emitted simple
  fold table holds exactly the codepoints whose (explicit or defaulted) fold differs
  from their simple lowercase mapping; the full fold table is not touched. A
  CaseFolding record of status C or S stores a simple fold, a record of status F with
  more than one codepoint stores a full fold.
\<close>

theorem fold_normalization_divergences:
  "map_of (simple_fold (fold_normalization s)) code =
     (case (case map_of (simple_fold s) code of
              Some m \<Rightarrow> Some m
            | None \<Rightarrow> if code \<in> fst ` set (simple_lower s) then Some code else None) of
        None \<Rightarrow> None
      | Some m \<Rightarrow> if map_of (simple_lower s) code = Some m then None else Some m) \<and>
   full_fold (fold_normalization s) = full_fold s \<and>
   (case_folding_record flds s = Inr s' \<longrightarrow>
      (\<exists>c. int16 (flds ! 0) = Inr c \<and>
         (flds ! 1 = ''C'' \<or> flds ! 1 = ''S'' \<longrightarrow>
            (\<exists>mapping. int16 (flds ! 2) = Inr mapping \<and>
               simple_fold s' = AList.update c mapping (simple_fold s) \<and>
               full_fold s' = full_fold s)) \<and>
         (flds ! 1 = ''F'' \<longrightarrow>
            (\<exists>values. split_codes (flds ! 2) = Inr values \<and>
               simple_fold s' = simple_fold s \<and>
               full_fold s' =
                 (if length values > 1 then AList.update c values (full_fold s)
                  else full_fold s)))))"
proof (intro conjI impI)
  show "map_of (simple_fold (fold_normalization s)) code =
     (case (case map_of (simple_fold s) code of
              Some m \<Rightarrow> Some m
            | None \<Rightarrow> if code \<in> fst ` set (simple_lower s) then Some code else None) of
        None \<Rightarrow> None
      | Some m \<Rightarrow> if map_of (simple_lower s) code = Some m then None else Some m)"
    by (simp add: fold_normalization_def map_of_divergent_fold map_of_default_fold)
  show "full_fold (fold_normalization s) = full_fold s"
    by (simp add: fold_normalization_def)
next
  assume "case_folding_record flds s = Inr s'"
  from case_folding_record_Inr[OF this] obtain c where
    c: "int16 (flds ! 0) = Inr c" and
    a: "flds ! 1 = ''C'' \<or> flds ! 1 = ''S'' \<longrightarrow>
              (\<exists>mapping. int16 (flds ! 2) = Inr mapping \<and>
                 s' = s\<lparr>simple_fold := AList.update c mapping (simple_fold s)\<rparr>)" and
    b: "flds ! 1 = ''F'' \<longrightarrow>
              (\<exists>values. split_codes (flds ! 2) = Inr values \<and>
                 s' = (if length values > 1
                       then s\<lparr>full_fold := AList.update c values (full_fold s)\<rparr> else s))"
    by blast
  have a': "flds ! 1 = ''C'' \<or> flds ! 1 = ''S'' \<longrightarrow>
            (\<exists>mapping. int16 (flds ! 2) = Inr mapping \<and>
               simple_fold s' = AList.update c mapping (simple_fold s) \<and>
               full_fold s' = full_fold s)"
  proof
    assume "flds ! 1 = ''C'' \<or> flds ! 1 = ''S''"
    with a obtain mapping where "int16 (flds ! 2) = Inr mapping"
      "s' = s\<lparr>simple_fold := AList.update c mapping (simple_fold s)\<rparr>" by blast
    then have "int16 (flds ! 2) = Inr mapping \<and>
               simple_fold s' = AList.update c mapping (simple_fold s) \<and>
               full_fold s' = full_fold s" by simp
    then show "\<exists>mapping. int16 (flds ! 2) = Inr mapping \<and>
               simple_fold s' = AList.update c mapping (simple_fold s) \<and>
               full_fold s' = full_fold s" ..
  qed
  have b': "flds ! 1 = ''F'' \<longrightarrow>
            (\<exists>values. split_codes (flds ! 2) = Inr values \<and>
               simple_fold s' = simple_fold s \<and>
               full_fold s' =
                 (if length values > 1 then AList.update c values (full_fold s)
                  else full_fold s))"
  proof
    assume "flds ! 1 = ''F''"
    with b obtain vs where "split_codes (flds ! 2) = Inr vs"
      "s' = (if length vs > 1
                       then s\<lparr>full_fold := AList.update c vs (full_fold s)\<rparr> else s)" by blast
    then have "split_codes (flds ! 2) = Inr vs \<and>
               simple_fold s' = simple_fold s \<and>
               full_fold s' =
                 (if length vs > 1 then AList.update c vs (full_fold s)
                  else full_fold s)" by simp
    then show "\<exists>values. split_codes (flds ! 2) = Inr values \<and>
               simple_fold s' = simple_fold s \<and>
               full_fold s' =
                 (if length values > 1 then AList.update c values (full_fold s)
                  else full_fold s)" ..
  qed
  from c a' b' show "\<exists>c. int16 (flds ! 0) = Inr c \<and>
         (flds ! 1 = ''C'' \<or> flds ! 1 = ''S'' \<longrightarrow>
            (\<exists>mapping. int16 (flds ! 2) = Inr mapping \<and>
               simple_fold s' = AList.update c mapping (simple_fold s) \<and>
               full_fold s' = full_fold s)) \<and>
         (flds ! 1 = ''F'' \<longrightarrow>
            (\<exists>values. split_codes (flds ! 2) = Inr values \<and>
               simple_fold s' = simple_fold s \<and>
               full_fold s' =
                 (if length values > 1 then AList.update c values (full_fold s)
                  else full_fold s)))" by blast
qed

theorem fold_normalization_divergences_witness:
  "\<exists>s1 s2.
     case_folding_record [''0041'', ''C'', ''0061'']
       (empty_tables\<lparr>simple_lower := [(65, 97), (304, 105)]\<rparr>) = Inr s1 \<and>
     case_folding_record [''0130'', ''F'', ''0069 0307''] s1 = Inr s2 \<and>
     simple_fold s1 = [(65, 97)] \<and>
     full_fold s2 = [(304, [105, 775])] \<and>
     map_of (simple_fold (fold_normalization s2)) 65 = None \<and>
     map_of (simple_fold (fold_normalization s2)) 304 = Some 304 \<and>
     map_of (full_fold (fold_normalization s2)) 304 = Some [105, 775]"
proof -
  let ?T = "empty_tables\<lparr>simple_lower := [(65, 97), (304, 105)]\<rparr>"
  let ?s1 = "?T\<lparr>simple_fold := [(65, 97)]\<rparr>"
  let ?s2 = "?s1\<lparr>full_fold := [(304, [105, 775])]\<rparr>"
  have i: "int16 ''0041'' = Inr 65" "int16 ''0061'' = Inr 97" "int16 ''0130'' = Inr 304"
    "split_codes ''0069 0307'' = Inr [105, 775]" by code_simp+
  have r1: "case_folding_record [''0041'', ''C'', ''0061''] ?T = Inr ?s1"
    by (simp add: case_folding_record_def field_def i empty_tables_def)
  have r2: "case_folding_record [''0130'', ''F'', ''0069 0307''] ?s1 = Inr ?s2"
    by (simp add: case_folding_record_def field_def i empty_tables_def)
  note th1 = fold_normalization_divergences [of ?s2 65]
  note th2 = fold_normalization_divergences [of ?s2 304]
  from fold_normalization_divergences [of ?T 0 "[''0041'', ''C'', ''0061'']" ?s1] r1
  obtain mapping where "int16 ([''0041'', ''C'', ''0061''] ! 2) = Inr mapping"
    "simple_fold ?s1 = AList.update 65 mapping (simple_fold ?T)"
    by (auto simp: i)
  then have f1: "simple_fold ?s1 = [(65, 97)]" by (simp add: i empty_tables_def)
  have f2: "full_fold ?s2 = [(304, [105, 775])]" by simp
  have n65: "map_of (simple_fold (fold_normalization ?s2)) 65 = None"
    unfolding th1 [THEN conjunct1] by (simp add: empty_tables_def)
  have n304: "map_of (simple_fold (fold_normalization ?s2)) 304 = Some 304"
    unfolding th2 [THEN conjunct1] by (simp add: empty_tables_def)
  have ff: "map_of (full_fold (fold_normalization ?s2)) 304 = Some [105, 775]"
    unfolding th2 [THEN conjunct2, THEN conjunct1] by simp
  from r1 r2 f1 f2 n65 n304 ff show ?thesis by blast
qed

end
